theory Spec2Isabelle
  imports Main "HOL-Library.List_Lexorder" "HOL-Library.AList"
begin

text \<open>
  A model of the narrator resolution of the repository: the normalization of Arabic names
  (\<open>normalize\<close>), the registries from normalized name to narrator id with their collision
  sets (\<open>enrich_narrator_ids.py\<close>, \<open>resolve_remaining_narrators.py\<close>), the lookup of a
  canonical name, the passes 0 to 3 of \<open>resolve\<close> and pass 4, \<open>resolve_pass4_matn\<close>. The
  definitions follow the Python functions statement by statement; the properties come
  after all definitions.
\<close>

section \<open>Strings\<close>

text \<open>
  A Python \<open>str\<close> is a sequence of Unicode code points; \<open>len\<close>, slicing and the
  regular expressions of the scripts all work per code point. A string is therefore a list
  of code points, each a natural number. The resolution tags are ASCII literals and are
  kept as HOL strings.
\<close>

type_synonym ustring = "nat list"

text \<open>
  \<open>str.isspace\<close>, \<open>str.strip()\<close>, \<open>str.split()\<close> and the class \<open>\s\<close> of \<open>re\<close>
  agree on what a whitespace character is (CPython's \<open>Py_UNICODE_ISSPACE\<close>).
\<close>

definition isspace :: "nat \<Rightarrow> bool" where
  "isspace c \<longleftrightarrow>
     (0x09 \<le> c \<and> c \<le> 0x0D) \<or> (0x1C \<le> c \<and> c \<le> 0x20) \<or> c = 0x85 \<or> c = 0xA0 \<or>
     c = 0x1680 \<or> (0x2000 \<le> c \<and> c \<le> 0x200A) \<or> c = 0x2028 \<or> c = 0x2029 \<or>
     c = 0x202F \<or> c = 0x205F \<or> c = 0x3000"

definition strip :: "ustring \<Rightarrow> ustring" where
  "strip s = rev (dropWhile isspace (rev (dropWhile isspace s)))"

text \<open>\<open>s.startswith(v)\<close>\<close>

definition startswith :: "ustring \<Rightarrow> ustring \<Rightarrow> bool" where
  "startswith s v \<longleftrightarrow> take (length v) s = v"

text \<open>
  \<open>s.split()\<close>: the maximal runs of non-whitespace characters, in order. The first
  argument is the word read so far.
\<close>

fun split_acc :: "ustring \<Rightarrow> ustring \<Rightarrow> ustring list" where
  "split_acc w [] = (if w = [] then [] else [w])"
| "split_acc w (c # cs) =
     (if isspace c then (if w = [] then split_acc [] cs else w # split_acc [] cs)
      else split_acc (w @ [c]) cs)"

definition split_ws :: "ustring \<Rightarrow> ustring list" where
  "split_ws s = split_acc [] s"

text \<open>\<open>" ".join(parts)\<close>\<close>

fun join_sp :: "ustring list \<Rightarrow> ustring" where
  "join_sp [] = []"
| "join_sp [p] = p"
| "join_sp (p # q # ps) = p @ 0x20 # join_sp (q # ps)"

section \<open>Normalization\<close>

text \<open>
  \<open>_TASHKEEL_RE\<close>: the character class of the Arabic diacritics, the same in
  \<open>enrich_narrator_ids.py\<close> and \<open>resolve_remaining_narrators.py\<close>.
\<close>

definition tashkeel :: "nat \<Rightarrow> bool" where
  "tashkeel c \<longleftrightarrow>
     (0x610 \<le> c \<and> c \<le> 0x61A) \<or> (0x64B \<le> c \<and> c \<le> 0x65F) \<or> c = 0x670 \<or>
     (0x6D6 \<le> c \<and> c \<le> 0x6DC) \<or> (0x6DF \<le> c \<and> c \<le> 0x6E4) \<or>
     (0x6E7 \<le> c \<and> c \<le> 0x6E8) \<or> (0x6EA \<le> c \<and> c \<le> 0x6ED)"

text \<open>
  \<open>unicodedata.category(c) == "Mn"\<close>. The table belongs to Python's standard library,
  not to the repository; these are the ranges of the general category Mn (non-spacing
  mark) in the Unicode Character Database 14.0.0, the one CPython 3.11 ships.
\<close>

definition Mn_ranges :: "(nat \<times> nat) list" where
  "Mn_ranges = [
    (0x300, 0x36F), (0x483, 0x487), (0x591, 0x5BD), (0x5BF, 0x5BF), (0x5C1, 0x5C2),
    (0x5C4, 0x5C5), (0x5C7, 0x5C7), (0x610, 0x61A), (0x64B, 0x65F), (0x670, 0x670),
    (0x6D6, 0x6DC), (0x6DF, 0x6E4), (0x6E7, 0x6E8), (0x6EA, 0x6ED), (0x711, 0x711),
    (0x730, 0x74A), (0x7A6, 0x7B0), (0x7EB, 0x7F3), (0x7FD, 0x7FD), (0x816, 0x819),
    (0x81B, 0x823), (0x825, 0x827), (0x829, 0x82D), (0x859, 0x85B), (0x898, 0x89F),
    (0x8CA, 0x8E1), (0x8E3, 0x902), (0x93A, 0x93A), (0x93C, 0x93C), (0x941, 0x948),
    (0x94D, 0x94D), (0x951, 0x957), (0x962, 0x963), (0x981, 0x981), (0x9BC, 0x9BC),
    (0x9C1, 0x9C4), (0x9CD, 0x9CD), (0x9E2, 0x9E3), (0x9FE, 0x9FE), (0xA01, 0xA02),
    (0xA3C, 0xA3C), (0xA41, 0xA42), (0xA47, 0xA48), (0xA4B, 0xA4D), (0xA51, 0xA51),
    (0xA70, 0xA71), (0xA75, 0xA75), (0xA81, 0xA82), (0xABC, 0xABC), (0xAC1, 0xAC5),
    (0xAC7, 0xAC8), (0xACD, 0xACD), (0xAE2, 0xAE3), (0xAFA, 0xAFF), (0xB01, 0xB01),
    (0xB3C, 0xB3C), (0xB3F, 0xB3F), (0xB41, 0xB44), (0xB4D, 0xB4D), (0xB55, 0xB56),
    (0xB62, 0xB63), (0xB82, 0xB82), (0xBC0, 0xBC0), (0xBCD, 0xBCD), (0xC00, 0xC00),
    (0xC04, 0xC04), (0xC3C, 0xC3C), (0xC3E, 0xC40), (0xC46, 0xC48), (0xC4A, 0xC4D),
    (0xC55, 0xC56), (0xC62, 0xC63), (0xC81, 0xC81), (0xCBC, 0xCBC), (0xCBF, 0xCBF),
    (0xCC6, 0xCC6), (0xCCC, 0xCCD), (0xCE2, 0xCE3), (0xD00, 0xD01), (0xD3B, 0xD3C),
    (0xD41, 0xD44), (0xD4D, 0xD4D), (0xD62, 0xD63), (0xD81, 0xD81), (0xDCA, 0xDCA),
    (0xDD2, 0xDD4), (0xDD6, 0xDD6), (0xE31, 0xE31), (0xE34, 0xE3A), (0xE47, 0xE4E),
    (0xEB1, 0xEB1), (0xEB4, 0xEBC), (0xEC8, 0xECD), (0xF18, 0xF19), (0xF35, 0xF35),
    (0xF37, 0xF37), (0xF39, 0xF39), (0xF71, 0xF7E), (0xF80, 0xF84), (0xF86, 0xF87),
    (0xF8D, 0xF97), (0xF99, 0xFBC), (0xFC6, 0xFC6), (0x102D, 0x1030), (0x1032, 0x1037),
    (0x1039, 0x103A), (0x103D, 0x103E), (0x1058, 0x1059), (0x105E, 0x1060), (0x1071, 0x1074),
    (0x1082, 0x1082), (0x1085, 0x1086), (0x108D, 0x108D), (0x109D, 0x109D), (0x135D, 0x135F),
    (0x1712, 0x1714), (0x1732, 0x1733), (0x1752, 0x1753), (0x1772, 0x1773), (0x17B4, 0x17B5),
    (0x17B7, 0x17BD), (0x17C6, 0x17C6), (0x17C9, 0x17D3), (0x17DD, 0x17DD), (0x180B, 0x180D),
    (0x180F, 0x180F), (0x1885, 0x1886), (0x18A9, 0x18A9), (0x1920, 0x1922), (0x1927, 0x1928),
    (0x1932, 0x1932), (0x1939, 0x193B), (0x1A17, 0x1A18), (0x1A1B, 0x1A1B), (0x1A56, 0x1A56),
    (0x1A58, 0x1A5E), (0x1A60, 0x1A60), (0x1A62, 0x1A62), (0x1A65, 0x1A6C), (0x1A73, 0x1A7C),
    (0x1A7F, 0x1A7F), (0x1AB0, 0x1ABD), (0x1ABF, 0x1ACE), (0x1B00, 0x1B03), (0x1B34, 0x1B34),
    (0x1B36, 0x1B3A), (0x1B3C, 0x1B3C), (0x1B42, 0x1B42), (0x1B6B, 0x1B73), (0x1B80, 0x1B81),
    (0x1BA2, 0x1BA5), (0x1BA8, 0x1BA9), (0x1BAB, 0x1BAD), (0x1BE6, 0x1BE6), (0x1BE8, 0x1BE9),
    (0x1BED, 0x1BED), (0x1BEF, 0x1BF1), (0x1C2C, 0x1C33), (0x1C36, 0x1C37), (0x1CD0, 0x1CD2),
    (0x1CD4, 0x1CE0), (0x1CE2, 0x1CE8), (0x1CED, 0x1CED), (0x1CF4, 0x1CF4), (0x1CF8, 0x1CF9),
    (0x1DC0, 0x1DFF), (0x20D0, 0x20DC), (0x20E1, 0x20E1), (0x20E5, 0x20F0), (0x2CEF, 0x2CF1),
    (0x2D7F, 0x2D7F), (0x2DE0, 0x2DFF), (0x302A, 0x302D), (0x3099, 0x309A), (0xA66F, 0xA66F),
    (0xA674, 0xA67D), (0xA69E, 0xA69F), (0xA6F0, 0xA6F1), (0xA802, 0xA802), (0xA806, 0xA806),
    (0xA80B, 0xA80B), (0xA825, 0xA826), (0xA82C, 0xA82C), (0xA8C4, 0xA8C5), (0xA8E0, 0xA8F1),
    (0xA8FF, 0xA8FF), (0xA926, 0xA92D), (0xA947, 0xA951), (0xA980, 0xA982), (0xA9B3, 0xA9B3),
    (0xA9B6, 0xA9B9), (0xA9BC, 0xA9BD), (0xA9E5, 0xA9E5), (0xAA29, 0xAA2E), (0xAA31, 0xAA32),
    (0xAA35, 0xAA36), (0xAA43, 0xAA43), (0xAA4C, 0xAA4C), (0xAA7C, 0xAA7C), (0xAAB0, 0xAAB0),
    (0xAAB2, 0xAAB4), (0xAAB7, 0xAAB8), (0xAABE, 0xAABF), (0xAAC1, 0xAAC1), (0xAAEC, 0xAAED),
    (0xAAF6, 0xAAF6), (0xABE5, 0xABE5), (0xABE8, 0xABE8), (0xABED, 0xABED), (0xFB1E, 0xFB1E),
    (0xFE00, 0xFE0F), (0xFE20, 0xFE2F), (0x101FD, 0x101FD), (0x102E0, 0x102E0),
    (0x10376, 0x1037A), (0x10A01, 0x10A03), (0x10A05, 0x10A06), (0x10A0C, 0x10A0F),
    (0x10A38, 0x10A3A), (0x10A3F, 0x10A3F), (0x10AE5, 0x10AE6), (0x10D24, 0x10D27),
    (0x10EAB, 0x10EAC), (0x10F46, 0x10F50), (0x10F82, 0x10F85), (0x11001, 0x11001),
    (0x11038, 0x11046), (0x11070, 0x11070), (0x11073, 0x11074), (0x1107F, 0x11081),
    (0x110B3, 0x110B6), (0x110B9, 0x110BA), (0x110C2, 0x110C2), (0x11100, 0x11102),
    (0x11127, 0x1112B), (0x1112D, 0x11134), (0x11173, 0x11173), (0x11180, 0x11181),
    (0x111B6, 0x111BE), (0x111C9, 0x111CC), (0x111CF, 0x111CF), (0x1122F, 0x11231),
    (0x11234, 0x11234), (0x11236, 0x11237), (0x1123E, 0x1123E), (0x112DF, 0x112DF),
    (0x112E3, 0x112EA), (0x11300, 0x11301), (0x1133B, 0x1133C), (0x11340, 0x11340),
    (0x11366, 0x1136C), (0x11370, 0x11374), (0x11438, 0x1143F), (0x11442, 0x11444),
    (0x11446, 0x11446), (0x1145E, 0x1145E), (0x114B3, 0x114B8), (0x114BA, 0x114BA),
    (0x114BF, 0x114C0), (0x114C2, 0x114C3), (0x115B2, 0x115B5), (0x115BC, 0x115BD),
    (0x115BF, 0x115C0), (0x115DC, 0x115DD), (0x11633, 0x1163A), (0x1163D, 0x1163D),
    (0x1163F, 0x11640), (0x116AB, 0x116AB), (0x116AD, 0x116AD), (0x116B0, 0x116B5),
    (0x116B7, 0x116B7), (0x1171D, 0x1171F), (0x11722, 0x11725), (0x11727, 0x1172B),
    (0x1182F, 0x11837), (0x11839, 0x1183A), (0x1193B, 0x1193C), (0x1193E, 0x1193E),
    (0x11943, 0x11943), (0x119D4, 0x119D7), (0x119DA, 0x119DB), (0x119E0, 0x119E0),
    (0x11A01, 0x11A0A), (0x11A33, 0x11A38), (0x11A3B, 0x11A3E), (0x11A47, 0x11A47),
    (0x11A51, 0x11A56), (0x11A59, 0x11A5B), (0x11A8A, 0x11A96), (0x11A98, 0x11A99),
    (0x11C30, 0x11C36), (0x11C38, 0x11C3D), (0x11C3F, 0x11C3F), (0x11C92, 0x11CA7),
    (0x11CAA, 0x11CB0), (0x11CB2, 0x11CB3), (0x11CB5, 0x11CB6), (0x11D31, 0x11D36),
    (0x11D3A, 0x11D3A), (0x11D3C, 0x11D3D), (0x11D3F, 0x11D45), (0x11D47, 0x11D47),
    (0x11D90, 0x11D91), (0x11D95, 0x11D95), (0x11D97, 0x11D97), (0x11EF3, 0x11EF4),
    (0x16AF0, 0x16AF4), (0x16B30, 0x16B36), (0x16F4F, 0x16F4F), (0x16F8F, 0x16F92),
    (0x16FE4, 0x16FE4), (0x1BC9D, 0x1BC9E), (0x1CF00, 0x1CF2D), (0x1CF30, 0x1CF46),
    (0x1D167, 0x1D169), (0x1D17B, 0x1D182), (0x1D185, 0x1D18B), (0x1D1AA, 0x1D1AD),
    (0x1D242, 0x1D244), (0x1DA00, 0x1DA36), (0x1DA3B, 0x1DA6C), (0x1DA75, 0x1DA75),
    (0x1DA84, 0x1DA84), (0x1DA9B, 0x1DA9F), (0x1DAA1, 0x1DAAF), (0x1E000, 0x1E006),
    (0x1E008, 0x1E018), (0x1E01B, 0x1E021), (0x1E023, 0x1E024), (0x1E026, 0x1E02A),
    (0x1E130, 0x1E136), (0x1E2AE, 0x1E2AE), (0x1E2EC, 0x1E2EF), (0x1E8D0, 0x1E8D6),
    (0x1E944, 0x1E94A), (0xE0100, 0xE01EF)]"

definition category_Mn :: "nat \<Rightarrow> bool" where
  "category_Mn c \<longleftrightarrow> list_ex (\<lambda>(lo, hi). lo \<le> c \<and> c \<le> hi) Mn_ranges"

text \<open>
  \<open>_PARENS_RE = re.compile(r"\(.*?\)")\<close>, substituted by the empty string. The dot does
  not match a line feed and the quantifier is lazy, so an opening parenthesis starts a match
  exactly when the next closing parenthesis comes before the next line feed;
  \<open>after_close\<close> returns what follows that closing parenthesis. Where no match starts the
  character is kept and the scan moves on by one.
\<close>

fun after_close :: "ustring \<Rightarrow> ustring option" where
  "after_close [] = None"
| "after_close (c # cs) =
     (if c = 0x29 then Some cs else if c = 0x0A then None else after_close cs)"

lemma after_close_length: "after_close cs = Some r \<Longrightarrow> length r < length cs"
  by (induction cs) (auto split: if_splits)

function parens_sub :: "ustring \<Rightarrow> ustring" where
  "parens_sub [] = []"
| "parens_sub (c # cs) =
     (if c = 0x28 then (case after_close cs of Some r \<Rightarrow> parens_sub r | None \<Rightarrow> c # parens_sub cs)
      else c # parens_sub cs)"
  by pat_completeness auto
termination
  by (relation "measure length") (auto dest: after_close_length)

text \<open>\<open>_PUNCT_RE\<close>: the Latin and Arabic punctuation that is deleted.\<close>

definition punct :: "nat \<Rightarrow> bool" where
  "punct c \<longleftrightarrow> c \<in> {0x2E, 0x2C, 0x60C, 0x61B, 0x3B, 0x3A, 0x61F, 0x3F, 0x21, 0x22, 0x27,
                    0xAB, 0xBB, 0x2D, 0x5F, 0x2F, 0x5C}"

text \<open>\<open>name.replace(a, b)\<close> for one-character strings \<open>a\<close> and \<open>b\<close>\<close>

definition replace :: "nat \<Rightarrow> nat \<Rightarrow> ustring \<Rightarrow> ustring" where
  "replace a b s = map (\<lambda>c. if c = a then b else c) s"

text \<open>
  \<open>re.sub(r"^\<dots>\s*", "", name)\<close> with the letter waw (U+0648): without the multi-line
  flag the anchor holds at position 0 only, so at most one waw and the whitespace after it go.
\<close>

definition strip_waw :: "ustring \<Rightarrow> ustring" where
  "strip_waw s = (case s of [] \<Rightarrow> [] | c # cs \<Rightarrow> if c = 0x648 then dropWhile isspace cs else s)"

text \<open>\<open>re.sub(r"\s+", " ", name)\<close>: every maximal run of whitespace becomes one space.\<close>

function collapse_ws :: "ustring \<Rightarrow> ustring" where
  "collapse_ws [] = []"
| "collapse_ws (c # cs) =
     (if isspace c then 0x20 # collapse_ws (dropWhile isspace cs) else c # collapse_ws cs)"
  by pat_completeness auto
termination
  by (relation "measure length") (auto simp: less_Suc_eq_le length_dropWhile_le)

text \<open>
  The function \<open>normalize\<close>, statement by statement; the two scripts define it alike.
  (The name \<open>normalize\<close> is taken by a constant of HOL.)
\<close>

definition normalize_str :: "ustring \<Rightarrow> ustring" where
  "normalize_str name0 =
     (let name1 = filter (\<lambda>c. \<not> tashkeel c) name0;
          name2 = filter (\<lambda>c. \<not> category_Mn c) name1;
          name3 = parens_sub name2;
          name4 = filter (\<lambda>c. \<not> punct c) name3;
          name5 = replace 0x622 0x627 (replace 0x625 0x627 (replace 0x623 0x627 name4));
          name6 = replace 0x624 0x648 (replace 0x626 0x64A name5);
          name7 = replace 0x629 0x647 name6;
          name8 = replace 0x649 0x64A name7;
          name9 = strip_waw name8
      in strip (collapse_ws name9))"

subsection \<open>Predicates on strings used to state the properties of normalization\<close>

text \<open>A character that the first three steps of \<open>normalize\<close> let through.\<close>

definition kept :: "nat \<Rightarrow> bool" where
  "kept c \<longleftrightarrow> \<not> tashkeel c \<and> \<not> category_Mn c \<and> \<not> punct c"

text \<open>The letter variants that step 4 to 6 fold into their base letter.\<close>

definition folded :: "nat \<Rightarrow> bool" where
  "folded c \<longleftrightarrow> c \<in> {0x622, 0x623, 0x625, 0x624, 0x626, 0x629, 0x649}"

text \<open>
  \<open>collapsed s\<close>: every whitespace character of \<open>s\<close> is a space and no two are
  adjacent. \<open>paren_pair s\<close>: some opening parenthesis of \<open>s\<close> has a closing one after it.
\<close>

fun collapsed :: "ustring \<Rightarrow> bool" where
  "collapsed [] = True"
| "collapsed [c] = (isspace c \<longrightarrow> c = 0x20)"
| "collapsed (c # d # cs) = ((isspace c \<longrightarrow> c = 0x20 \<and> \<not> isspace d) \<and> collapsed (d # cs))"

fun paren_pair :: "ustring \<Rightarrow> bool" where
  "paren_pair [] = False"
| "paren_pair (c # cs) = ((c = 0x28 \<and> 0x29 \<in> set cs) \<or> paren_pair cs)"




section \<open>Identity registries\<close>

text \<open>
  A Python \<open>dict\<close> keeps its keys distinct and in insertion order: it is an association list,
  \<open>d[k] = v\<close> is \<open>AList.update k v d\<close> and \<open>k in d\<close>, \<open>d[k]\<close> read \<open>map_of d k\<close>. A Python
  \<open>set\<close> that a script builds element by element is a list without duplicates; its order
  is never observed, because the scripts only test membership and length, or sort first.
\<close>

type_synonym ('k, 'v) dict = "('k \<times> 'v) list"

subsection \<open>\<open>build_lookup\<close> of \<open>enrich_narrator_ids.py\<close>\<close>

text \<open>
  The input \<open>narrator_names\<close> is a JSON object from narrator id to the list of the
  narrator's names. The body of the inner loop, for one \<open>raw_name\<close> of \<open>narrator_id\<close>:
\<close>

definition build_lookup_name ::
  "ustring \<Rightarrow> (ustring, ustring) dict \<times> ustring list \<Rightarrow> ustring \<Rightarrow>
   (ustring, ustring) dict \<times> ustring list" where
  "build_lookup_name narrator_id st raw_name =
     (let lookup = fst st; collision_set = snd st; norm = normalize_str raw_name in
      if norm = [] then st
      else (case map_of lookup norm of
              Some i \<Rightarrow> if i \<noteq> narrator_id then (lookup, List.insert norm collision_set) else st
            | None \<Rightarrow> (AList.update norm narrator_id lookup, collision_set)))"

definition build_lookup ::
  "(ustring, ustring list) dict \<Rightarrow> (ustring, ustring) dict \<times> ustring list" where
  "build_lookup narrator_names =
     foldl (\<lambda>st (narrator_id, names). foldl (build_lookup_name narrator_id) st names)
       ([], []) narrator_names"

subsection \<open>The tables from name form to the set of ids that own it\<close>

text \<open>\<open>d.setdefault(norm, set()).add(nid)\<close>\<close>

definition setdefault_add ::
  "(ustring, ustring list) dict \<Rightarrow> ustring \<times> ustring \<Rightarrow> (ustring, ustring list) dict" where
  "setdefault_add d p =
     (case map_of d (fst p) of
        None \<Rightarrow> AList.update (fst p) [snd p] d
      | Some ids \<Rightarrow> AList.update (fst p) (List.insert (snd p) ids) d)"

text \<open>
  The closing loop of both builders of \<open>resolve_remaining_narrators.py\<close>: a form owned by
  one id goes to \<open>lookup\<close> with that id (\<open>next(iter(ids))\<close>), any other to \<open>collision_set\<close>.
\<close>

definition unambiguous ::
  "(ustring, ustring list) dict \<Rightarrow> (ustring, ustring) dict \<times> ustring list" where
  "unambiguous d =
     (map (\<lambda>(norm, ids). (norm, hd ids)) (filter (\<lambda>(norm, ids). length ids = 1) d),
      map fst (filter (\<lambda>(norm, ids). length ids \<noteq> 1) d))"

subsection \<open>\<open>build_shamela_lookup\<close>\<close>

text \<open>
  The JSONL file, parsed: one page object per non-blank line. A key that an object lacks
  is \<open>None\<close>; \<open>.get(key, default)\<close> then gives the default and \<open>obj[key]\<close> raises
  \<open>KeyError\<close>.
\<close>

datatype error = KeyError

record sh_narrator =
  sn_id :: "ustring option"
  sn_name :: "ustring option"

record sh_block =
  block_narrators :: "sh_narrator list"
  matn :: "ustring option"
  full_text :: "ustring option"

record sh_page =
  status :: "string option"
  hadith_blocks :: "sh_block list"
  page_number :: "int option"

definition get_default :: "'a list option \<Rightarrow> 'a list" where
  "get_default v = (case v of None \<Rightarrow> [] | Some s \<Rightarrow> s)"

text \<open>The narrators the loops reach: those of the blocks of the pages with status success.\<close>

definition success_blocks :: "sh_page list \<Rightarrow> sh_block list" where
  "success_blocks pages =
     concat (map hadith_blocks (filter (\<lambda>obj. status obj = Some ''success'') pages))"

text \<open>
  The pairs (form, id) that the innermost loop adds to \<open>raw\<close>, in order: a narrator
  without id or name, or whose name normalizes to the empty string, adds nothing.
\<close>

definition shamela_claim :: "sh_narrator \<Rightarrow> (ustring \<times> ustring) list" where
  "shamela_claim narrator =
     (let nid = strip (get_default (sn_id narrator));
          nname = get_default (sn_name narrator) in
      if nid = [] \<or> nname = [] then []
      else (let norm = normalize_str nname in if norm = [] then [] else [(norm, nid)]))"

definition shamela_claims :: "sh_page list \<Rightarrow> (ustring \<times> ustring) list" where
  "shamela_claims pages =
     concat (map shamela_claim (concat (map block_narrators (success_blocks pages))))"

definition build_shamela_lookup ::
  "sh_page list \<Rightarrow> (ustring, ustring) dict \<times> ustring list" where
  "build_shamela_lookup pages = unambiguous (foldl setdefault_add [] (shamela_claims pages))"

subsection \<open>\<open>build_narrator_name_lookup\<close>\<close>

text \<open>The set \<open>norms\<close> of one narrator: the non-empty normalized forms of its names.\<close>

definition norms_of :: "ustring list \<Rightarrow> ustring list" where
  "norms_of names =
     foldl (\<lambda>norms raw_name.
        let norm = normalize_str raw_name in if norm \<noteq> [] then List.insert norm norms else norms)
       [] names"

definition id_to_norms ::
  "(ustring, ustring list) dict \<Rightarrow> (ustring, ustring list) dict" where
  "id_to_norms narrator_names =
     foldl (\<lambda>d (narrator_id, names).
        let norms = norms_of names in if norms \<noteq> [] then AList.update narrator_id norms d else d)
       [] narrator_names"

text \<open>The pairs (form, id) that the second loop adds to \<open>norm_to_ids\<close>, in order.\<close>

definition name_claims :: "(ustring, ustring list) dict \<Rightarrow> (ustring \<times> ustring) list" where
  "name_claims i2n = concat (map (\<lambda>(narrator_id, norms). map (\<lambda>norm. (norm, narrator_id)) norms) i2n)"

definition norm_to_ids ::
  "(ustring, ustring list) dict \<Rightarrow> (ustring, ustring list) dict" where
  "norm_to_ids i2n = foldl setdefault_add [] (name_claims i2n)"

text \<open>
  \<open>sorted(xs, key=len, reverse=True)\<close>: a stable sort by descending length. The keys
  \<open>nid\<close> and \<open>norm\<close> that \<open>collision_index\<close> reads are keys of the tables by construction.
\<close>

definition longest_first :: "ustring list \<Rightarrow> ustring list" where
  "longest_first xs = sort_key (\<lambda>v. - int (length v)) xs"

definition collision_index_of ::
  "(ustring, ustring list) dict \<Rightarrow> (ustring, ustring list) dict \<Rightarrow> ustring list \<Rightarrow>
   (ustring, (ustring, ustring list) dict) dict" where
  "collision_index_of i2n n2i collision_set =
     map (\<lambda>norm. (norm, map (\<lambda>nid. (nid, longest_first (the (map_of i2n nid))))
                           (the (map_of n2i norm))))
       collision_set"

definition build_narrator_name_lookup ::
  "(ustring, ustring list) dict \<Rightarrow>
   (ustring, ustring) dict \<times> ustring list \<times> (ustring, (ustring, ustring list) dict) dict" where
  "build_narrator_name_lookup narrator_names =
     (let i2n = id_to_norms narrator_names;
          n2i = norm_to_ids i2n;
          lookup = fst (unambiguous n2i);
          collision_set = snd (unambiguous n2i)
      in (lookup, collision_set, collision_index_of i2n n2i collision_set))"

text \<open>
  The pairs (form, id) in the words of the specification: identity \<open>i\<close> claims form \<open>F\<close>
  when \<open>F\<close> is the non-empty normalized form of one of the names listed under \<open>i\<close>.
\<close>

definition source_claims :: "(ustring, ustring list) dict \<Rightarrow> (ustring \<times> ustring) list" where
  "source_claims narrator_names =
     concat (map (\<lambda>(narrator_id, names).
        map (\<lambda>raw_name. (normalize_str raw_name, narrator_id))
          (filter (\<lambda>raw_name. normalize_str raw_name \<noteq> []) names)) narrator_names)"

definition owners :: "(ustring \<times> ustring) list \<Rightarrow> ustring \<Rightarrow> ustring set" where
  "owners claims F = {i. (F, i) \<in> set claims}"

section \<open>Resolution of the remaining narrators\<close>

text \<open>
  The tables that \<open>resolve\<close> and \<open>lookup_canonical\<close> only read are maps and sets: the
  functions use \<open>in\<close> and \<open>d[k]\<close> on them and nothing else. The inner dictionaries of
  \<open>narrator_collision_index\<close>, which \<open>_try_disambiguate\<close> iterates, stay association lists.
\<close>

type_synonym lookup_table = "ustring \<rightharpoonup> ustring"
type_synonym collision_index = "ustring \<rightharpoonup> (ustring, ustring list) dict"

text \<open>Python's truth value of an \<open>Optional[str]\<close>: \<open>None\<close> and the empty string are false.\<close>

definition truthy :: "ustring option \<Rightarrow> bool" where
  "truthy r = (case r of None \<Rightarrow> False | Some s \<Rightarrow> s \<noteq> [])"

subsection \<open>\<open>lookup_canonical\<close>\<close>

text \<open>The inner function \<open>_try\<close>.\<close>

definition lc_try ::
  "lookup_table \<Rightarrow> lookup_table \<Rightarrow> ustring set \<Rightarrow> ustring set \<Rightarrow> ustring \<Rightarrow> ustring option" where
  "lc_try shamela_lookup narrator_lookup shamela_collision narrator_collision norm =
     (if shamela_lookup norm \<noteq> None \<and> norm \<notin> shamela_collision then shamela_lookup norm
      else if narrator_lookup norm \<noteq> None \<and> norm \<notin> narrator_collision then narrator_lookup norm
      else None)"

text \<open>The two lists that the inner function \<open>_try_disambiguate\<close> collects.\<close>

definition positive_ids :: "(ustring, ustring list) dict \<Rightarrow> ustring \<Rightarrow> ustring \<Rightarrow> ustring list" where
  "positive_ids candidates prefix full_norm =
     map fst (filter (\<lambda>(nid, variants).
        list_ex (\<lambda>v. v \<noteq> prefix \<and> length v > length prefix \<and> startswith full_norm v) variants)
       candidates)"

definition non_conflicting_ids ::
  "(ustring, ustring list) dict \<Rightarrow> ustring \<Rightarrow> ustring \<Rightarrow> ustring list" where
  "non_conflicting_ids candidates prefix full_norm =
     map fst (filter (\<lambda>(nid, variants).
        \<not> list_ex (\<lambda>v. v \<noteq> prefix \<and> length v > length prefix \<and> startswith v prefix \<and>
                     \<not> startswith full_norm v) variants)
       candidates)"

definition try_disambiguate :: "collision_index option \<Rightarrow> ustring \<Rightarrow> ustring \<Rightarrow> ustring option" where
  "try_disambiguate narrator_collision_index prefix full_norm =
     (case narrator_collision_index of
        None \<Rightarrow> None
      | Some index \<Rightarrow>
          (case index prefix of
             None \<Rightarrow> None
           | Some candidates \<Rightarrow>
               if length (positive_ids candidates prefix full_norm) = 1
               then Some (positive_ids candidates prefix full_norm ! 0)
               else if length (non_conflicting_ids candidates prefix full_norm) = 1
               then Some (non_conflicting_ids candidates prefix full_norm ! 0)
               else None))"

text \<open>
  The loop \<open>for end in range(len(parts) - 1, 0, -1)\<close>; the last argument is \<open>end\<close>, and
  \<open>end = 0\<close> is where the range is exhausted.
\<close>

fun prefix_loop ::
  "lookup_table \<Rightarrow> lookup_table \<Rightarrow> ustring set \<Rightarrow> ustring set \<Rightarrow> collision_index option \<Rightarrow>
   ustring list \<Rightarrow> ustring \<Rightarrow> nat \<Rightarrow> ustring option" where
  "prefix_loop sl nl sc nc nci parts norm 0 = None"
| "prefix_loop sl nl sc nc nci parts norm (Suc e) =
     (let prefix = join_sp (take (Suc e) parts) in
      if truthy (lc_try sl nl sc nc prefix) then lc_try sl nl sc nc prefix
      else if prefix \<in> nc \<and> truthy (try_disambiguate nci prefix norm)
      then try_disambiguate nci prefix norm
      else prefix_loop sl nl sc nc nci parts norm e)"

definition lookup_canonical ::
  "ustring \<Rightarrow> lookup_table \<Rightarrow> lookup_table \<Rightarrow> ustring set \<Rightarrow> ustring set \<Rightarrow>
   collision_index option \<Rightarrow> ustring option" where
  "lookup_canonical canonical shamela_lookup narrator_lookup shamela_collision narrator_collision
       narrator_collision_index =
     (let norm = normalize_str canonical in
      if truthy (lc_try shamela_lookup narrator_lookup shamela_collision narrator_collision norm)
      then lc_try shamela_lookup narrator_lookup shamela_collision narrator_collision norm
      else prefix_loop shamela_lookup narrator_lookup shamela_collision narrator_collision
             narrator_collision_index (split_ws norm) norm (length (split_ws norm) - 1))"

text \<open>
  The same function, returning with the identity the \<open>return\<close> statement that produced it:
  the full match, the match of a shortened prefix, or one of the two strategies of
  \<open>_try_disambiguate\<close>.
\<close>

datatype route = Full_match | Prefix_match | Positive_fit | Elimination

definition try_disambiguate_route ::
  "collision_index option \<Rightarrow> ustring \<Rightarrow> ustring \<Rightarrow> (ustring \<times> route) option" where
  "try_disambiguate_route narrator_collision_index prefix full_norm =
     (case narrator_collision_index of
        None \<Rightarrow> None
      | Some index \<Rightarrow>
          (case index prefix of
             None \<Rightarrow> None
           | Some candidates \<Rightarrow>
               if length (positive_ids candidates prefix full_norm) = 1
               then Some (positive_ids candidates prefix full_norm ! 0, Positive_fit)
               else if length (non_conflicting_ids candidates prefix full_norm) = 1
               then Some (non_conflicting_ids candidates prefix full_norm ! 0, Elimination)
               else None))"

fun prefix_loop_route ::
  "lookup_table \<Rightarrow> lookup_table \<Rightarrow> ustring set \<Rightarrow> ustring set \<Rightarrow> collision_index option \<Rightarrow>
   ustring list \<Rightarrow> ustring \<Rightarrow> nat \<Rightarrow> (ustring \<times> route) option" where
  "prefix_loop_route sl nl sc nc nci parts norm 0 = None"
| "prefix_loop_route sl nl sc nc nci parts norm (Suc e) =
     (let prefix = join_sp (take (Suc e) parts) in
      if truthy (lc_try sl nl sc nc prefix)
      then map_option (\<lambda>i. (i, Prefix_match)) (lc_try sl nl sc nc prefix)
      else if prefix \<in> nc \<and> truthy (map_option fst (try_disambiguate_route nci prefix norm))
      then try_disambiguate_route nci prefix norm
      else prefix_loop_route sl nl sc nc nci parts norm e)"

definition lookup_canonical_route ::
  "ustring \<Rightarrow> lookup_table \<Rightarrow> lookup_table \<Rightarrow> ustring set \<Rightarrow> ustring set \<Rightarrow>
   collision_index option \<Rightarrow> (ustring \<times> route) option" where
  "lookup_canonical_route canonical shamela_lookup narrator_lookup shamela_collision
       narrator_collision narrator_collision_index =
     (let norm = normalize_str canonical in
      if truthy (lc_try shamela_lookup narrator_lookup shamela_collision narrator_collision norm)
      then map_option (\<lambda>i. (i, Full_match))
             (lc_try shamela_lookup narrator_lookup shamela_collision narrator_collision norm)
      else prefix_loop_route shamela_lookup narrator_lookup shamela_collision narrator_collision
             narrator_collision_index (split_ws norm) norm (length (split_ws norm) - 1))"

subsection \<open>\<open>resolve\<close>: passes 0 to 3\<close>

text \<open>
  A narrator of a chain is a JSON object. \<open>None\<close> in \<open>name\<close> and \<open>narrator_id_ambiguous\<close>
  is a missing key; in \<open>narrator_id\<close> and \<open>narrator_id_resolution\<close> it is a missing key or
  the value null, which the scripts do not tell apart (they read both with \<open>.get\<close>).
\<close>

record narrator =
  name :: "ustring option"
  narrator_id :: "ustring option"
  narrator_id_resolution :: "string option"
  narrator_id_ambiguous :: "bool option"

record chain =
  narrators :: "narrator list"

record hadith =
  chains :: "chain list"
  matn_segments :: "ustring list"

text \<open>
  The state of the two variables \<open>resolved_id\<close> and \<open>resolution_tag\<close> after each pass of
  the loop body.
\<close>

definition pass1 ::
  "lookup_table \<Rightarrow> ustring set \<Rightarrow> ustring \<Rightarrow> ustring option \<times> string option" where
  "pass1 shamela_lookup shamela_collision norm_name =
     (if shamela_lookup norm_name \<noteq> None \<and> norm_name \<notin> shamela_collision
      then (shamela_lookup norm_name, Some ''shamela_cross_ref'')
      else (None, None))"

definition pass2 ::
  "lookup_table \<Rightarrow> ustring set \<Rightarrow> (ustring \<rightharpoonup> ustring) \<Rightarrow> lookup_table \<Rightarrow> ustring set \<Rightarrow>
   collision_index option \<Rightarrow> ustring \<Rightarrow> ustring \<Rightarrow>
   ustring option \<times> string option \<Rightarrow> ustring option \<times> string option" where
  "pass2 shamela_lookup shamela_collision context_mappings narrator_lookup narrator_collision
       narrator_collision_index raw_name student_name st =
     (if fst st = None \<and> student_name \<noteq> [] then
        (case context_mappings (raw_name @ [0x7C] @ student_name) of
           None \<Rightarrow> st
         | Some canonical \<Rightarrow>
             (let resolved_id = lookup_canonical canonical shamela_lookup narrator_lookup
                    shamela_collision narrator_collision narrator_collision_index
              in (resolved_id, if truthy resolved_id then Some ''context_mapping'' else snd st)))
      else st)"

definition pass3 ::
  "lookup_table \<Rightarrow> ustring set \<Rightarrow> (ustring \<rightharpoonup> ustring) \<Rightarrow> lookup_table \<Rightarrow> ustring set \<Rightarrow>
   collision_index option \<Rightarrow> ustring \<Rightarrow>
   ustring option \<times> string option \<Rightarrow> ustring option \<times> string option" where
  "pass3 shamela_lookup shamela_collision name_mappings narrator_lookup narrator_collision
       narrator_collision_index raw_name st =
     (if fst st = None then
        (case name_mappings raw_name of
           None \<Rightarrow> st
         | Some canonical \<Rightarrow>
             (let resolved_id = lookup_canonical canonical shamela_lookup narrator_lookup
                    shamela_collision narrator_collision narrator_collision_index
              in (resolved_id, if truthy resolved_id then Some ''name_mapping'' else snd st)))
      else st)"

text \<open>The block under the comment \<open>Apply result\<close>.\<close>

definition apply_result :: "ustring option \<times> string option \<Rightarrow> narrator \<Rightarrow> narrator" where
  "apply_result st narrator =
     (if truthy (fst st)
      then narrator\<lparr>narrator_id := fst st, narrator_id_resolution := snd st,
                    narrator_id_ambiguous := None\<rparr>
      else narrator\<lparr>narrator_id := None, narrator_id_resolution := None\<rparr>)"

text \<open>
  The loop body for a narrator whose \<open>narrator_id\<close> is null, once \<open>student_name\<close> is known.
\<close>

definition resolve_unmatched ::
  "lookup_table \<Rightarrow> ustring set \<Rightarrow> (ustring \<rightharpoonup> ustring) \<Rightarrow> (ustring \<rightharpoonup> ustring) \<Rightarrow>
   lookup_table \<Rightarrow> ustring set \<Rightarrow> collision_index option \<Rightarrow> ustring \<Rightarrow> narrator \<Rightarrow> narrator" where
  "resolve_unmatched shamela_lookup shamela_collision context_mappings name_mappings
       narrator_lookup narrator_collision narrator_collision_index student_name narrator =
     (let raw_name = get_default (name narrator);
          norm_name = normalize_str raw_name
      in apply_result
           (pass3 shamela_lookup shamela_collision name_mappings narrator_lookup
              narrator_collision narrator_collision_index raw_name
              (pass2 shamela_lookup shamela_collision context_mappings narrator_lookup
                 narrator_collision narrator_collision_index raw_name student_name
                 (pass1 shamela_lookup shamela_collision norm_name)))
           narrator)"

text \<open>
  \<open>narrators[idx - 1]["name"] if idx > 0 else ""\<close>: the argument is the narrator before
  this one in the chain, if there is one. Its name is read with \<open>[]\<close>, which raises
  \<open>KeyError\<close> when the key is missing.
\<close>

definition student_name_of :: "narrator option \<Rightarrow> error + ustring" where
  "student_name_of prev =
     (case prev of
        None \<Rightarrow> Inr []
      | Some p \<Rightarrow> (case name p of None \<Rightarrow> Inl KeyError | Some s \<Rightarrow> Inr s))"

text \<open>The whole loop body: pass 0, then the three passes.\<close>

definition resolve_narrator ::
  "lookup_table \<Rightarrow> ustring set \<Rightarrow> (ustring \<rightharpoonup> ustring) \<Rightarrow> (ustring \<rightharpoonup> ustring) \<Rightarrow>
   lookup_table \<Rightarrow> ustring set \<Rightarrow> collision_index option \<Rightarrow> narrator option \<Rightarrow> narrator \<Rightarrow>
   error + narrator" where
  "resolve_narrator shamela_lookup shamela_collision context_mappings name_mappings
       narrator_lookup narrator_collision narrator_collision_index prev narrator =
     (if narrator_id narrator \<noteq> None
      then Inr (narrator\<lparr>narrator_id_resolution := Some ''exact_match''\<rparr>)
      else (case student_name_of prev of
              Inl e \<Rightarrow> Inl e
            | Inr student_name \<Rightarrow>
                Inr (resolve_unmatched shamela_lookup shamela_collision context_mappings
                       name_mappings narrator_lookup narrator_collision
                       narrator_collision_index student_name narrator)))"

text \<open>
  \<open>for idx, narrator in enumerate(narrators)\<close>. An exception ends the run, so the first
  error is the result. The narrator before the current one has been rewritten already,
  but its name has not changed.
\<close>

fun resolve_narrators ::
  "lookup_table \<Rightarrow> ustring set \<Rightarrow> (ustring \<rightharpoonup> ustring) \<Rightarrow> (ustring \<rightharpoonup> ustring) \<Rightarrow>
   lookup_table \<Rightarrow> ustring set \<Rightarrow> collision_index option \<Rightarrow> narrator option \<Rightarrow> narrator list \<Rightarrow>
   error + narrator list" where
  "resolve_narrators sl sc cm nm nl nc nci prev [] = Inr []"
| "resolve_narrators sl sc cm nm nl nc nci prev (n # ns) =
     (case resolve_narrator sl sc cm nm nl nc nci prev n of
        Inl e \<Rightarrow> Inl e
      | Inr n' \<Rightarrow>
          (case resolve_narrators sl sc cm nm nl nc nci (Some n) ns of
             Inl e \<Rightarrow> Inl e
           | Inr ns' \<Rightarrow> Inr (n' # ns')))"

text \<open>A loop over a list that stops at the first exception.\<close>

fun map_err :: "('a \<Rightarrow> error + 'b) \<Rightarrow> 'a list \<Rightarrow> error + 'b list" where
  "map_err f [] = Inr []"
| "map_err f (x # xs) =
     (case f x of
        Inl e \<Rightarrow> Inl e
      | Inr y \<Rightarrow> (case map_err f xs of Inl e \<Rightarrow> Inl e | Inr ys \<Rightarrow> Inr (y # ys)))"

definition resolve_chain ::
  "lookup_table \<Rightarrow> ustring set \<Rightarrow> (ustring \<rightharpoonup> ustring) \<Rightarrow> (ustring \<rightharpoonup> ustring) \<Rightarrow>
   lookup_table \<Rightarrow> ustring set \<Rightarrow> collision_index option \<Rightarrow> chain \<Rightarrow> error + chain" where
  "resolve_chain sl sc cm nm nl nc nci c =
     (case resolve_narrators sl sc cm nm nl nc nci None (narrators c) of
        Inl e \<Rightarrow> Inl e
      | Inr ns \<Rightarrow> Inr (c\<lparr>narrators := ns\<rparr>))"

definition resolve_hadith ::
  "lookup_table \<Rightarrow> ustring set \<Rightarrow> (ustring \<rightharpoonup> ustring) \<Rightarrow> (ustring \<rightharpoonup> ustring) \<Rightarrow>
   lookup_table \<Rightarrow> ustring set \<Rightarrow> collision_index option \<Rightarrow> hadith \<Rightarrow> error + hadith" where
  "resolve_hadith sl sc cm nm nl nc nci h =
     (case map_err (resolve_chain sl sc cm nm nl nc nci) (chains h) of
        Inl e \<Rightarrow> Inl e
      | Inr cs \<Rightarrow> Inr (h\<lparr>chains := cs\<rparr>))"

text \<open>
  \<open>resolve\<close>, as the list of hadiths it leaves behind. The counters and the set of names
  that it returns are reporting only and are not modelled: no field of a narrator depends
  on them.
\<close>

definition resolve ::
  "hadith list \<Rightarrow> lookup_table \<Rightarrow> ustring set \<Rightarrow> (ustring \<rightharpoonup> ustring) \<Rightarrow> (ustring \<rightharpoonup> ustring) \<Rightarrow>
   lookup_table \<Rightarrow> ustring set \<Rightarrow> collision_index option \<Rightarrow> error + hadith list" where
  "resolve hadiths shamela_lookup shamela_collision context_mappings name_mappings
       narrator_lookup narrator_collision narrator_collision_index =
     map_err (resolve_hadith shamela_lookup shamela_collision context_mappings name_mappings
                narrator_lookup narrator_collision narrator_collision_index) hadiths"

subsection \<open>\<open>build_shamela_matn_index\<close>\<close>

text \<open>
  An entry of the index: the set \<open>narrator_ids\<close>, the dictionary \<open>narrator_map\<close> it is the
  key set of, and the page.
\<close>

record matn_entry =
  narrator_ids :: "ustring set"
  narrator_map :: "(ustring, ustring) dict"
  page :: int

text \<open>
  The dictionary comprehension \<open>{n["id"]: n["name"] for n in \<dots> if n.get("id")}\<close>: a
  narrator with a non-empty id must have a name, or \<open>n["name"]\<close> raises.
\<close>

fun narrator_map_of :: "sh_narrator list \<Rightarrow> (ustring, ustring) dict \<Rightarrow> error + (ustring, ustring) dict" where
  "narrator_map_of [] d = Inr d"
| "narrator_map_of (n # ns) d =
     (if truthy (sn_id n) then
        (case sn_name n of
           None \<Rightarrow> Inl KeyError
         | Some nm \<Rightarrow> narrator_map_of ns (AList.update (the (sn_id n)) nm d))
      else narrator_map_of ns d)"

text \<open>\<open>block.get("matn") or block.get("full_text", "")\<close>\<close>

definition block_text :: "sh_block \<Rightarrow> ustring" where
  "block_text block = (if truthy (matn block) then the (matn block) else get_default (full_text block))"

text \<open>\<open>index.setdefault(key, []).append(entry)\<close>\<close>

definition index_append ::
  "(ustring \<rightharpoonup> matn_entry list) \<Rightarrow> ustring \<Rightarrow> matn_entry \<Rightarrow> (ustring \<rightharpoonup> matn_entry list)" where
  "index_append index key entry =
     index(key \<mapsto> (case index key of None \<Rightarrow> [] | Some es \<Rightarrow> es) @ [entry])"

text \<open>The loop over the blocks of one page.\<close>

fun index_blocks ::
  "int option \<Rightarrow> sh_block list \<Rightarrow> (ustring \<rightharpoonup> matn_entry list) \<Rightarrow>
   error + (ustring \<rightharpoonup> matn_entry list)" where
  "index_blocks pn [] index = Inr index"
| "index_blocks pn (block # blocks) index =
     (let key = take 100 (normalize_str (block_text block)) in
      if length key < 15 then index_blocks pn blocks index
      else (case narrator_map_of (block_narrators block) [] of
              Inl e \<Rightarrow> Inl e
            | Inr nmap \<Rightarrow>
                (case pn of
                   None \<Rightarrow> Inl KeyError
                 | Some p \<Rightarrow>
                     index_blocks pn blocks
                       (index_append index key
                          \<lparr>narrator_ids = set (map fst nmap), narrator_map = nmap, page = p\<rparr>))))"

fun index_pages ::
  "sh_page list \<Rightarrow> (ustring \<rightharpoonup> matn_entry list) \<Rightarrow> error + (ustring \<rightharpoonup> matn_entry list)" where
  "index_pages [] index = Inr index"
| "index_pages (obj # pages) index =
     (if status obj \<noteq> Some ''success'' then index_pages pages index
      else (case index_blocks (page_number obj) (hadith_blocks obj) index of
              Inl e \<Rightarrow> Inl e
            | Inr index' \<Rightarrow> index_pages pages index'))"

definition build_shamela_matn_index :: "sh_page list \<Rightarrow> error + (ustring \<rightharpoonup> matn_entry list)" where
  "build_shamela_matn_index pages = index_pages pages Map.empty"

subsection \<open>\<open>resolve_pass4_matn\<close>: pass 4\<close>

text \<open>The narrators of a hadith across all its chains, in order, and those without id.\<close>

definition all_narrators :: "hadith \<Rightarrow> narrator list" where
  "all_narrators h = concat (map narrators (chains h))"

definition null_slots :: "hadith \<Rightarrow> narrator list" where
  "null_slots h = filter (\<lambda>n. narrator_id n = None) (all_narrators h)"

definition resolved_ids :: "hadith \<Rightarrow> ustring set" where
  "resolved_ids h = set (map (\<lambda>n. the (narrator_id n)) (filter (\<lambda>n. narrator_id n \<noteq> None) (all_narrators h)))"

text \<open>\<open>shamela_matn_index.get(matn_key, [])\<close> for the first segment of the matn.\<close>

definition shamela_matches :: "(ustring \<rightharpoonup> matn_entry list) \<Rightarrow> ustring \<Rightarrow> matn_entry list" where
  "shamela_matches index seg =
     (case index (take 100 (normalize_str seg)) of None \<Rightarrow> [] | Some es \<Rightarrow> es)"

text \<open>
  The loop \<open>for narrator, new_id in zip(null_slots, sorted(extra_ids))\<close>. The narrators in
  \<open>null_slots\<close> are the objects of the chains themselves, so the loop rewrites, in chain
  order, each narrator without id for as long as ids are left; the second component is
  the ids not yet used.
\<close>

fun assign_narrators :: "narrator list \<Rightarrow> ustring list \<Rightarrow> narrator list \<times> ustring list" where
  "assign_narrators [] ids = ([], ids)"
| "assign_narrators (n # ns) [] = (n # ns, [])"
| "assign_narrators (n # ns) (new_id # ids) =
     (if narrator_id n = None
      then (let r = assign_narrators ns ids in
            (n\<lparr>narrator_id := Some new_id, narrator_id_resolution := Some ''matn_chain_match'',
                narrator_id_ambiguous := None\<rparr> # fst r, snd r))
      else (let r = assign_narrators ns (new_id # ids) in (n # fst r, snd r)))"

fun assign_chains :: "chain list \<Rightarrow> ustring list \<Rightarrow> chain list" where
  "assign_chains [] ids = []"
| "assign_chains (c # cs) ids =
     (let r = assign_narrators (narrators c) ids in
      c\<lparr>narrators := fst r\<rparr> # assign_chains cs (snd r))"

text \<open>
  The set difference \<open>match["narrator_ids"] - resolved_ids\<close>, and the body of the loop over
  the hadiths. \<open>sorted\<close> of a set of strings is \<open>sorted_list_of_set\<close> in the order of the
  code points.
\<close>

definition extra_ids :: "matn_entry \<Rightarrow> hadith \<Rightarrow> ustring set" where
  "extra_ids match h = narrator_ids match - resolved_ids h"

definition resolve_pass4_hadith :: "(ustring \<rightharpoonup> matn_entry list) \<Rightarrow> hadith \<Rightarrow> hadith" where
  "resolve_pass4_hadith shamela_matn_index h =
     (if null_slots h = [] then h
      else (case matn_segments h of
              [] \<Rightarrow> h
            | seg # _ \<Rightarrow>
                (case shamela_matches shamela_matn_index seg of
                   [match] \<Rightarrow>
                     if card (extra_ids match h) \<noteq> length (null_slots h) then h
                     else h\<lparr>chains := assign_chains (chains h) (sorted_list_of_set (extra_ids match h))\<rparr>
                 | _ \<Rightarrow> h)))"

text \<open>
  \<open>resolve_pass4_matn\<close>, as the list of hadiths it leaves behind (the count and the set of
  names it returns are reporting only).
\<close>

definition resolve_pass4_matn :: "hadith list \<Rightarrow> (ustring \<rightharpoonup> matn_entry list) \<Rightarrow> hadith list" where
  "resolve_pass4_matn hadiths shamela_matn_index = map (resolve_pass4_hadith shamela_matn_index) hadiths"

subsection \<open>\<open>enrich\<close> of \<open>enrich_narrator_ids.py\<close>\<close>

text \<open>
  The body of the loop of \<open>enrich\<close>, which consumes the tables of \<open>build_lookup\<close>: the
  collision set is tested before the lookup table.
\<close>

definition enrich_narrator :: "(ustring, ustring) dict \<Rightarrow> ustring list \<Rightarrow> narrator \<Rightarrow> narrator" where
  "enrich_narrator lookup collision_set narrator =
     (let raw = get_default (name narrator); norm = normalize_str raw in
      if norm \<in> set collision_set
      then narrator\<lparr>narrator_id := None, narrator_id_ambiguous := Some True\<rparr>
      else if map_of lookup norm \<noteq> None then narrator\<lparr>narrator_id := map_of lookup norm\<rparr>
      else narrator\<lparr>narrator_id := None\<rparr>)"

section \<open>Notions used to state the properties of the pipeline\<close>

text \<open>
  \<open>paired n\<close>: the narrator has an id exactly when it has a resolution tag.
  \<open>tagged st\<close>: the state of \<open>resolved_id\<close> and \<open>resolution_tag\<close> inside the loop body of
  \<open>resolve\<close> has a tag whenever it has a usable id.
\<close>

definition paired :: "narrator \<Rightarrow> bool" where
  "paired n \<longleftrightarrow> (narrator_id n \<noteq> None) = (narrator_id_resolution n \<noteq> None)"

definition tagged :: "ustring option \<times> string option \<Rightarrow> bool" where
  "tagged st \<longleftrightarrow> (truthy (fst st) \<longrightarrow> snd st \<noteq> None)"

text \<open>
  The narrators of a list of hadiths by position: \<open>in_range hs hi ci k\<close> says that the
  hadith \<open>hi\<close> has a chain \<open>ci\<close> with a narrator \<open>k\<close>, \<open>mention hs hi ci k\<close> is that
  narrator, and \<open>predecessor hs hi ci k\<close> is the narrator before it in its chain, the one
  whose name the loop of \<open>resolve\<close> takes as \<open>student_name\<close> (none for the first
  narrator of a chain). \<open>pass4_step a b\<close>: \<open>b\<close> is \<open>a\<close>, or \<open>a\<close> had no id and \<open>b\<close> is \<open>a\<close>
  with an id and the tag of pass 4.
\<close>

definition in_range :: "hadith list \<Rightarrow> nat \<Rightarrow> nat \<Rightarrow> nat \<Rightarrow> bool" where
  "in_range hs hi ci k \<longleftrightarrow>
     hi < length hs \<and> ci < length (chains (hs ! hi)) \<and>
     k < length (narrators (chains (hs ! hi) ! ci))"

definition mention :: "hadith list \<Rightarrow> nat \<Rightarrow> nat \<Rightarrow> nat \<Rightarrow> narrator" where
  "mention hs hi ci k = narrators (chains (hs ! hi) ! ci) ! k"

definition predecessor :: "hadith list \<Rightarrow> nat \<Rightarrow> nat \<Rightarrow> nat \<Rightarrow> narrator option" where
  "predecessor hs hi ci k = (if k = 0 then None else Some (mention hs hi ci (k - 1)))"

definition pass4_step :: "narrator \<Rightarrow> narrator \<Rightarrow> bool" where
  "pass4_step a b \<longleftrightarrow>
     (narrator_id a \<noteq> None \<longrightarrow> b = a) \<and>
     (b = a \<or>
      (\<exists>new_id. narrator_id a = None \<and>
         b = a\<lparr>narrator_id := Some new_id, narrator_id_resolution := Some ''matn_chain_match'',
               narrator_id_ambiguous := None\<rparr>))"

subsection \<open>Concrete inputs\<close>

text \<open>Three names, a narrator without id, and a matn of twenty characters with its key.\<close>

definition zayd :: ustring where
  "zayd = [0x632, 0x64A, 0x62F]"

definition umar :: ustring where
  "umar = [0x639, 0x645, 0x631]"

definition anas :: ustring where
  "anas = [0x623, 0x646, 0x633]"

definition unresolved :: "ustring \<Rightarrow> narrator" where
  "unresolved nm = \<lparr>name = Some nm, narrator_id = None, narrator_id_resolution = None,
     narrator_id_ambiguous = None\<rparr>"

definition matn_text :: ustring where
  "matn_text = [0x625, 0x646, 0x645, 0x627, 0x20, 0x627, 0x644, 0x623, 0x639, 0x645, 0x627, 0x644,
                0x20, 0x628, 0x627, 0x644, 0x646, 0x64A, 0x627, 0x62A]"

definition matn_key :: ustring where
  "matn_key = [0x627, 0x646, 0x645, 0x627, 0x20, 0x627, 0x644, 0x627, 0x639, 0x645, 0x627, 0x644,
               0x20, 0x628, 0x627, 0x644, 0x646, 0x64A, 0x627, 0x62A]"

text \<open>
  A page of the secondary corpus with one block, whose chain is Zayd (id 9) then Umar
  (id 10); the index entry that \<open>build_shamela_matn_index\<close> makes of it; and a hadith of
  the primary corpus with the same matn and the same chain, both narrators without id.
\<close>

definition shamela_pages :: "sh_page list" where
  "shamela_pages =
     [\<lparr>status = Some ''success'',
       hadith_blocks =
         [\<lparr>block_narrators = [\<lparr>sn_id = Some [0x39], sn_name = Some zayd\<rparr>,
                               \<lparr>sn_id = Some [0x31, 0x30], sn_name = Some umar\<rparr>],
           matn = Some matn_text, full_text = None\<rparr>],
       page_number = Some 1\<rparr>]"

definition shamela_entry :: matn_entry where
  "shamela_entry = \<lparr>narrator_ids = {[0x39], [0x31, 0x30]},
     narrator_map = [([0x39], zayd), ([0x31, 0x30], umar)], page = 1\<rparr>"

definition bukhari_hadith :: hadith where
  "bukhari_hadith = \<lparr>chains = [\<lparr>narrators = [unresolved zayd, unresolved umar]\<rparr>],
     matn_segments = [matn_text]\<rparr>"

text \<open>
  A narrator with an id and a tag, and the list of one hadith whose one chain has two
  narrators.
\<close>

definition known :: "ustring \<Rightarrow> ustring \<Rightarrow> string \<Rightarrow> narrator" where
  "known nm i tag = \<lparr>name = Some nm, narrator_id = Some i, narrator_id_resolution = Some tag,
     narrator_id_ambiguous = None\<rparr>"

definition zayd_umar :: "narrator \<Rightarrow> narrator \<Rightarrow> hadith list" where
  "zayd_umar a b = [\<lparr>chains = [\<lparr>narrators = [a, b]\<rparr>], matn_segments = [matn_text]\<rparr>]"

text \<open>
  The source of scenario B: the identities 10 and 11 with the normalized forms they own, and
  the canonical name to resolve.
\<close>

definition aisha_bint :: ustring where
  "aisha_bint = [0x639, 0x627, 0x64A, 0x634, 0x647, 0x20, 0x628, 0x646, 0x62A]"

definition aisha_bint_abi_bakr :: ustring where
  "aisha_bint_abi_bakr = [0x639, 0x627, 0x64A, 0x634, 0x647, 0x20, 0x628, 0x646, 0x62A, 0x20,
                          0x627, 0x628, 0x64A, 0x20, 0x628, 0x643, 0x631]"

definition aisha_bint_saad :: ustring where
  "aisha_bint_saad = [0x639, 0x627, 0x64A, 0x634, 0x647, 0x20, 0x628, 0x646, 0x62A, 0x20,
                      0x633, 0x639, 0x62F]"

definition aisha_canonical :: ustring where
  "aisha_canonical = [0x639, 0x627, 0x626, 0x634, 0x629, 0x20, 0x628, 0x646, 0x62A, 0x20,
                      0x623, 0x628, 0x64A, 0x20, 0x628, 0x643, 0x631]"

definition aisha_names :: "(ustring, ustring list) dict" where
  "aisha_names = [([0x31, 0x30], [aisha_bint, aisha_bint_abi_bakr]),
                  ([0x31, 0x31], [aisha_bint, aisha_bint_saad])]"

text \<open>The lookup table and the collision index that the builder makes of that source.\<close>

definition aisha_lookup :: "(ustring, ustring) dict" where
  "aisha_lookup = [(aisha_bint_abi_bakr, [0x31, 0x30]), (aisha_bint_saad, [0x31, 0x31])]"

definition aisha_index :: "(ustring, (ustring, ustring list) dict) dict" where
  "aisha_index = [(aisha_bint, [([0x31, 0x31], [aisha_bint_saad, aisha_bint]),
                                ([0x31, 0x30], [aisha_bint_abi_bakr, aisha_bint])])]"

subsection \<open>What the builders are proved to compute\<close>

text \<open>
  \<open>tabulates claims d\<close>: the table \<open>d\<close> from form to id set holds, for every form, exactly
  the ids that claim it. \<open>bl_claim\<close> is the inner loop body of \<open>build_lookup\<close> for a form
  that is already normalized and not empty, and \<open>first_wins claims st\<close> says of its state
  that \<open>lookup\<close> holds every claimed form with one of its claimants, and \<open>collision_set\<close>
  the forms that have a claimant other than the one in \<open>lookup\<close>.
\<close>

definition tabulates :: "(ustring \<times> ustring) list \<Rightarrow> (ustring, ustring list) dict \<Rightarrow> bool" where
  "tabulates claims d \<longleftrightarrow>
     distinct (map fst d) \<and>
     (\<forall>F. map_of d F = None \<longleftrightarrow> owners claims F = {}) \<and>
     (\<forall>F ids. map_of d F = Some ids \<longrightarrow> distinct ids \<and> set ids = owners claims F)"

definition bl_claim ::
  "(ustring, ustring) dict \<times> ustring list \<Rightarrow> ustring \<times> ustring \<Rightarrow> (ustring, ustring) dict \<times> ustring list" where
  "bl_claim st p =
     (case map_of (fst st) (fst p) of
        Some i \<Rightarrow> if i \<noteq> snd p then (fst st, List.insert (fst p) (snd st)) else st
      | None \<Rightarrow> (AList.update (fst p) (snd p) (fst st), snd st))"

definition first_wins :: "(ustring \<times> ustring) list \<Rightarrow> (ustring, ustring) dict \<times> ustring list \<Rightarrow> bool" where
  "first_wins claims st \<longleftrightarrow>
     (\<forall>F. map_of (fst st) F = None \<longleftrightarrow> owners claims F = {}) \<and>
     (\<forall>F i. map_of (fst st) F = Some i \<longrightarrow> i \<in> owners claims F) \<and>
     (\<forall>F. F \<in> set (snd st) \<longleftrightarrow> (\<exists>i j. map_of (fst st) F = Some i \<and> j \<in> owners claims F \<and> j \<noteq> i))"

text \<open>
  A source in which the identities 1 and 2 both own the name Zayd, as the JSON object of
  \<open>narrator_hadith_names.json\<close> and as a page of the secondary corpus.
\<close>

definition clash_names :: "(ustring, ustring list) dict" where
  "clash_names = [([0x31], [zayd]), ([0x32], [zayd, umar])]"

definition clash_pages :: "sh_page list" where
  "clash_pages =
     [\<lparr>status = Some ''success'',
       hadith_blocks =
         [\<lparr>block_narrators = [\<lparr>sn_id = Some [0x31], sn_name = Some zayd\<rparr>,
                               \<lparr>sn_id = Some [0x32], sn_name = Some zayd\<rparr>],
           matn = None, full_text = None\<rparr>],
       page_number = Some 1\<rparr>]"

section \<open>Properties of normalization\<close>

subsection \<open>Which characters a normalized string can contain\<close>

text \<open>
  The rules that evaluate \<open>normalize\<close> on a literal string. The character classes are
  unfolded at literal code points only.
\<close>

lemmas normalize_eval = normalize_str_def replace_def strip_waw_def strip_def
  tashkeel_def [of "numeral n" for n] category_Mn_def [of "numeral n" for n] Mn_ranges_def
  punct_def [of "numeral n" for n] isspace_def [of "numeral n" for n]

lemma set_strip: "set (strip s) \<subseteq> set s"
proof -
  have "set (dropWhile isspace (rev (dropWhile isspace s))) \<subseteq> set (rev (dropWhile isspace s))"
    by (rule set_dropWhileD [THEN subsetI])
  also have "\<dots> \<subseteq> set s"
    by (auto dest: set_dropWhileD)
  finally show ?thesis by (simp add: strip_def)
qed

lemma set_collapse_ws: "set (collapse_ws s) \<subseteq> insert 0x20 (set s)"
proof (induction s rule: collapse_ws.induct)
  case 1
  show ?case by simp
next
  case (2 c cs)
  show ?case
  proof (cases "isspace c")
    case True
    with 2 have "set (collapse_ws (dropWhile isspace cs)) \<subseteq> insert 0x20 (set (dropWhile isspace cs))"
      by simp
    moreover have "set (dropWhile isspace cs) \<subseteq> set cs"
      by (auto dest: set_dropWhileD)
    ultimately show ?thesis using True by auto
  next
    case False
    with 2 show ?thesis by auto
  qed
qed

lemma set_strip_waw: "set (strip_waw s) \<subseteq> set s"
  by (auto simp: strip_waw_def split: list.splits dest: set_dropWhileD)

lemma set_replace: "set (replace a b s) \<subseteq> insert b (set s)"
  by (auto simp: replace_def)

lemma after_close_set: "after_close cs = Some r \<Longrightarrow> set r \<subseteq> set cs"
  by (induction cs) (auto split: if_splits)

lemma set_parens_sub: "set (parens_sub s) \<subseteq> set s"
proof (induction s rule: parens_sub.induct)
  case 1
  show ?case by simp
next
  case (2 c cs)
  show ?case
  proof (cases "c = 0x28")
    case True
    show ?thesis
    proof (cases "after_close cs")
      case None
      with 2 True show ?thesis by auto
    next
      case (Some r)
      with 2 True have "set (parens_sub r) \<subseteq> set r" by simp
      with after_close_set [OF Some] Some True show ?thesis by auto
    qed
  next
    case False
    with 2 show ?thesis by auto
  qed
qed

lemma set_normalize:
  "set (normalize_str s) \<subseteq> {c \<in> set s. kept c} \<union> {0x20, 0x627, 0x64A, 0x648, 0x647}"
proof -
  define n2 where "n2 = filter (\<lambda>c. \<not> category_Mn c) (filter (\<lambda>c. \<not> tashkeel c) s)"
  define n4 where "n4 = filter (\<lambda>c. \<not> punct c) (parens_sub n2)"
  define n5 where "n5 = replace 0x622 0x627 (replace 0x625 0x627 (replace 0x623 0x627 n4))"
  define n8 where "n8 = replace 0x649 0x64A (replace 0x629 0x647 (replace 0x624 0x648 (replace 0x626 0x64A n5)))"
  have n: "normalize_str s = strip (collapse_ws (strip_waw n8))"
    by (simp add: normalize_str_def n8_def n5_def n4_def n2_def)
  have 2: "set n2 \<subseteq> {c \<in> set s. \<not> tashkeel c \<and> \<not> category_Mn c}"
    by (auto simp: n2_def)
  have 4: "set n4 \<subseteq> {c \<in> set s. kept c}"
    using 2 set_parens_sub [of n2] by (auto simp: n4_def kept_def)
  have 5: "set n5 \<subseteq> insert 0x627 (set n4)"
    unfolding n5_def
    using set_replace [of "0x622" "0x627" "replace 0x625 0x627 (replace 0x623 0x627 n4)"]
      set_replace [of "0x625" "0x627" "replace 0x623 0x627 n4"] set_replace [of "0x623" "0x627" n4]
    by blast
  have 8: "set n8 \<subseteq> {0x64A, 0x648, 0x647} \<union> set n5"
    unfolding n8_def
    using set_replace [of "0x649" "0x64A" "replace 0x629 0x647 (replace 0x624 0x648 (replace 0x626 0x64A n5))"]
      set_replace [of "0x629" "0x647" "replace 0x624 0x648 (replace 0x626 0x64A n5)"]
      set_replace [of "0x624" "0x648" "replace 0x626 0x64A n5"] set_replace [of "0x626" "0x64A" n5]
    by blast
  have "set (normalize_str s) \<subseteq> insert 0x20 (set n8)"
    unfolding n
    using set_strip [of "collapse_ws (strip_waw n8)"] set_collapse_ws [of "strip_waw n8"]
      set_strip_waw [of n8]
    by blast
  with 8 5 4 show ?thesis by blast
qed

lemma kept_letters: "kept 0x20" "kept 0x627" "kept 0x64A" "kept 0x648" "kept 0x647"
  by (simp_all add: kept_def tashkeel_def category_Mn_def Mn_ranges_def punct_def)

lemma normalize_kept: "c \<in> set (normalize_str s) \<Longrightarrow> kept c"
  using set_normalize [of s] kept_letters by auto

lemma collapse_ws_hd:
  "collapse_ws s = d # ds \<Longrightarrow> isspace d \<Longrightarrow> s \<noteq> [] \<and> isspace (hd s)"
  by (cases s) (auto split: if_splits)

lemma collapsed_collapse_ws: "collapsed (collapse_ws s)"
proof (induction s rule: collapse_ws.induct)
  case 1
  show ?case by simp
next
  case (2 c cs)
  show ?case
  proof (cases "isspace c")
    case True
    let ?r = "dropWhile isspace cs"
    from 2 True have ih: "collapsed (collapse_ws ?r)" by simp
    show ?thesis
    proof (cases "collapse_ws ?r")
      case Nil
      with True show ?thesis by simp
    next
      case (Cons d ds)
      have "\<not> isspace d"
      proof
        assume "isspace d"
        with Cons have "?r \<noteq> [] \<and> isspace (hd ?r)" by (rule collapse_ws_hd)
        then show False using hd_dropWhile [of isspace cs] by simp
      qed
      with True Cons ih show ?thesis by simp
    qed
  next
    case False
    with 2 have ih: "collapsed (collapse_ws cs)" by simp
    show ?thesis
    proof (cases "collapse_ws cs")
      case Nil
      with False show ?thesis by simp
    next
      case (Cons d ds)
      with False ih show ?thesis by simp
    qed
  qed
qed

lemma collapsed_id: "collapsed s \<Longrightarrow> collapse_ws s = s"
proof (induction s rule: collapsed.induct)
  case 1
  show ?case by simp
next
  case (2 c)
  then show ?case by simp
next
  case (3 c d cs)
  then show ?case by (cases "isspace c") auto
qed

lemma collapsed_tl: "collapsed (c # cs) \<Longrightarrow> collapsed cs"
  by (cases cs) auto

lemma collapsed_append: "collapsed (u @ v) \<Longrightarrow> collapsed u \<and> collapsed v"
proof (induction u rule: collapsed.induct)
  case 1
  then show ?case by simp
next
  case (2 c)
  then show ?case by (cases v) auto
next
  case (3 c d cs)
  then show ?case by auto
qed

lemma strip_decomp: "\<exists>u v. s = u @ strip s @ v"
proof -
  let ?a = "dropWhile isspace s"
  have "s = takeWhile isspace s @ ?a" by simp
  moreover have "rev ?a = takeWhile isspace (rev ?a) @ dropWhile isspace (rev ?a)" by simp
  then have "?a = strip s @ rev (takeWhile isspace (rev ?a))"
    unfolding strip_def by (metis rev_append rev_rev_ident)
  ultimately show ?thesis by metis
qed

lemma collapsed_strip: "collapsed s \<Longrightarrow> collapsed (strip s)"
  using strip_decomp [of s] collapsed_append by metis

lemma last_dropWhile: "dropWhile P xs \<noteq> [] \<Longrightarrow> last (dropWhile P xs) = last xs"
  by (induction xs) (auto split: if_splits)

lemma dropWhile_rev_nonempty: "dropWhile P (rev xs) \<noteq> [] \<Longrightarrow> xs \<noteq> []"
  by (cases xs) auto

lemma strip_ends: "strip s \<noteq> [] \<Longrightarrow> \<not> isspace (hd (strip s)) \<and> \<not> isspace (last (strip s))"
proof -
  assume ne: "strip s \<noteq> []"
  let ?a = "dropWhile isspace s"
  let ?b = "dropWhile isspace (rev ?a)"
  from ne have b: "?b \<noteq> []" by (simp add: strip_def)
  from b have a: "?a \<noteq> []" by (rule dropWhile_rev_nonempty)
  from b have 1: "\<not> isspace (hd ?b)" by (rule hd_dropWhile)
  from a have 2: "\<not> isspace (hd ?a)" by (rule hd_dropWhile)
  from b have "last ?b = last (rev ?a)" by (rule last_dropWhile)
  with a have 3: "last ?b = hd ?a" by (simp add: last_rev)
  from b have "hd (strip s) = last ?b" "last (strip s) = hd ?b"
    by (simp_all add: strip_def hd_rev last_rev)
  with 1 2 3 show ?thesis by simp
qed

lemma strip_id: "s = [] \<or> (\<not> isspace (hd s) \<and> \<not> isspace (last s)) \<Longrightarrow> strip s = s"
proof (cases s)
  case Nil
  then show ?thesis by (simp add: strip_def)
next
  case (Cons c cs)
  assume "s = [] \<or> (\<not> isspace (hd s) \<and> \<not> isspace (last s))"
  with Cons have h: "\<not> isspace (hd s)" and l: "\<not> isspace (last s)" by auto
  from Cons h have 1: "dropWhile isspace s = s" by simp
  have "hd (rev s) = last s" by (rule hd_rev)
  with l have "\<not> isspace (hd (rev s))" by simp
  moreover from Cons have "rev s \<noteq> []" by simp
  ultimately have "dropWhile isspace (rev s) = rev s" by (cases "rev s") auto
  with 1 show ?thesis by (simp add: strip_def)
qed

lemma after_close_mem: "after_close cs = Some r \<Longrightarrow> 0x29 \<in> set cs"
  by (induction cs) (auto split: if_splits)

lemma parens_sub_id: "\<not> paren_pair s \<Longrightarrow> parens_sub s = s"
proof (induction s rule: parens_sub.induct)
  case 1
  show ?case by simp
next
  case (2 c cs)
  show ?case
  proof (cases "c = 0x28 \<and> after_close cs \<noteq> None")
    case True
    then obtain r where "after_close cs = Some r" by auto
    then have "0x29 \<in> set cs" by (rule after_close_mem)
    with True 2 show ?thesis by simp
  next
    case False
    with 2 show ?thesis by (cases "after_close cs") auto
  qed
qed

lemma replace_id: "a \<notin> set s \<Longrightarrow> replace a b s = s"
  by (induction s) (auto simp: replace_def)

lemma replace_gone: "a \<noteq> b \<Longrightarrow> a \<notin> set (replace a b s)"
  by (auto simp: replace_def)

lemma replace_absent: "c \<notin> set s \<Longrightarrow> c \<noteq> b \<Longrightarrow> c \<notin> set (replace a b s)"
  by (auto simp: replace_def)

lemma normalize_no_folded: "c \<in> set (normalize_str s) \<Longrightarrow> \<not> folded c"
proof -
  define n4 where "n4 = filter (\<lambda>c. \<not> punct c) (parens_sub (filter (\<lambda>c. \<not> category_Mn c) (filter (\<lambda>c. \<not> tashkeel c) s)))"
  define n8 where "n8 = replace 0x649 0x64A (replace 0x629 0x647 (replace 0x624 0x648 (replace 0x626 0x64A
     (replace 0x622 0x627 (replace 0x625 0x627 (replace 0x623 0x627 n4))))))"
  have n: "normalize_str s = strip (collapse_ws (strip_waw n8))"
    by (simp add: normalize_str_def n8_def n4_def)
  have "0x622 \<notin> set n8" "0x623 \<notin> set n8" "0x625 \<notin> set n8" "0x624 \<notin> set n8"
    "0x626 \<notin> set n8" "0x629 \<notin> set n8" "0x649 \<notin> set n8"
    unfolding n8_def by (rule replace_gone | rule replace_absent | simp)+
  then have "\<forall>c \<in> set n8. \<not> folded c"
    unfolding folded_def by blast
  moreover have "set (normalize_str s) \<subseteq> insert 0x20 (set n8)"
    unfolding n
    using set_strip [of "collapse_ws (strip_waw n8)"] set_collapse_ws [of "strip_waw n8"]
      set_strip_waw [of n8]
    by blast
  moreover have "\<not> folded 0x20" by (simp add: folded_def)
  moreover assume "c \<in> set (normalize_str s)"
  ultimately show ?thesis by auto
qed

lemma normalize_shape:
  "collapsed (normalize_str s)"
  "normalize_str s = [] \<or> (\<not> isspace (hd (normalize_str s)) \<and> \<not> isspace (last (normalize_str s)))"
proof -
  obtain t where n: "normalize_str s = strip (collapse_ws t)"
    by (simp add: normalize_str_def)
  show "collapsed (normalize_str s)"
    unfolding n by (rule collapsed_strip) (rule collapsed_collapse_ws)
  show "normalize_str s = [] \<or> (\<not> isspace (hd (normalize_str s)) \<and> \<not> isspace (last (normalize_str s)))"
    unfolding n using strip_ends by blast
qed

lemma normalize_fixed:
  assumes chars: "\<forall>c \<in> set y. kept c \<and> \<not> folded c"
    and shape: "collapsed y" "y = [] \<or> (\<not> isspace (hd y) \<and> \<not> isspace (last y))"
    and waw: "\<not> startswith y [0x648]"
    and par: "\<not> paren_pair y"
  shows "normalize_str y = y"
proof -
  have 1: "filter (\<lambda>c. \<not> tashkeel c) y = y" "filter (\<lambda>c. \<not> category_Mn c) y = y"
    "filter (\<lambda>c. \<not> punct c) y = y"
    using chars by (auto simp: kept_def filter_id_conv)
  have 2: "parens_sub y = y" using par by (rule parens_sub_id)
  have 3: "replace a b y = y" if "folded a" for a b
    using chars that by (intro replace_id) auto
  have 4: "strip_waw y = y"
    using waw by (cases y) (auto simp: strip_waw_def startswith_def)
  have 5: "collapse_ws y = y" using shape(1) by (rule collapsed_id)
  have 6: "strip y = y" using shape(2) by (rule strip_id)
  have f: "folded 0x622" "folded 0x623" "folded 0x625" "folded 0x624" "folded 0x626"
    "folded 0x629" "folded 0x649"
    by (simp_all add: folded_def)
  show ?thesis
    unfolding normalize_str_def Let_def
    by (simp only: 1 2 3 [OF f(1)] 3 [OF f(2)] 3 [OF f(3)] 3 [OF f(4)]
        3 [OF f(5)] 3 [OF f(6)] 3 [OF f(7)] 4 5 6)
qed

subsection \<open>A second application that changes the string shortens it\<close>

lemma length_parens_sub: "length (parens_sub s) \<le> length s"
proof (induction s rule: parens_sub.induct)
  case 1
  show ?case by simp
next
  case (2 c cs)
  show ?case
  proof (cases "c = 0x28")
    case True
    show ?thesis
    proof (cases "after_close cs")
      case None
      with 2 True show ?thesis by simp
    next
      case (Some r)
      with 2 True have "length (parens_sub r) \<le> length r" by simp
      with after_close_length [OF Some] Some True show ?thesis by simp
    qed
  next
    case False
    with 2 show ?thesis by simp
  qed
qed

lemma after_close_found: "0x29 \<in> set cs \<Longrightarrow> 0x0A \<notin> set cs \<Longrightarrow> after_close cs \<noteq> None"
  by (induction cs) auto

lemma parens_sub_shorter: "paren_pair s \<Longrightarrow> 0x0A \<notin> set s \<Longrightarrow> length (parens_sub s) < length s"
proof (induction s rule: parens_sub.induct)
  case 1
  then show ?case by simp
next
  case (2 c cs)
  show ?case
  proof (cases "c = 0x28")
    case True
    show ?thesis
    proof (cases "after_close cs")
      case None
      with 2 True after_close_found [of cs] have "paren_pair cs" by auto
      with 2 True None show ?thesis by simp
    next
      case (Some r)
      have "length (parens_sub r) \<le> length r" by (rule length_parens_sub)
      with after_close_length [OF Some] Some True show ?thesis by simp
    qed
  next
    case False
    with 2 show ?thesis by simp
  qed
qed

lemma length_collapse_ws: "length (collapse_ws s) \<le> length s"
proof (induction s rule: collapse_ws.induct)
  case 1
  show ?case by simp
next
  case (2 c cs)
  show ?case
  proof (cases "isspace c")
    case True
    with 2 have "length (collapse_ws (dropWhile isspace cs)) \<le> length (dropWhile isspace cs)" by simp
    also have "\<dots> \<le> length cs" by (rule length_dropWhile_le)
    finally show ?thesis using True by simp
  next
    case False
    with 2 show ?thesis by simp
  qed
qed

lemma length_strip: "length (strip s) \<le> length s"
proof -
  have "length (strip s) \<le> length (dropWhile isspace s)"
    unfolding strip_def using length_dropWhile_le [of isspace "rev (dropWhile isspace s)"] by simp
  also have "\<dots> \<le> length s" by (rule length_dropWhile_le)
  finally show ?thesis .
qed

lemma length_strip_waw: "length (strip_waw s) \<le> length s"
  using length_dropWhile_le [of isspace "tl s"] by (cases s) (auto simp: strip_waw_def)

lemma strip_waw_shorter: "startswith s [0x648] \<Longrightarrow> length (strip_waw s) < length s"
  using length_dropWhile_le [of isspace "tl s"]
  by (cases s) (auto simp: strip_waw_def startswith_def less_Suc_eq_le)

lemma collapsed_no_newline: "collapsed s \<Longrightarrow> 0x0A \<notin> set s"
proof (induction s rule: collapsed.induct)
  case 1
  show ?case by simp
next
  case (2 c)
  have "isspace 0x0A" by (simp add: isspace_def)
  with 2 show ?case by auto
next
  case (3 c d cs)
  have "isspace 0x0A" by (simp add: isspace_def)
  with 3 show ?case by auto
qed

lemma normalize_changes:
  assumes chars: "\<forall>c \<in> set y. kept c \<and> \<not> folded c"
    and nl: "0x0A \<notin> set y"
    and bad: "startswith y [0x648] \<or> paren_pair y"
  shows "length (normalize_str y) < length y"
proof -
  have 1: "filter (\<lambda>c. \<not> tashkeel c) y = y" "filter (\<lambda>c. \<not> category_Mn c) y = y"
    using chars by (auto simp: kept_def filter_id_conv)
  have p: "\<forall>c \<in> set (parens_sub y). \<not> punct c \<and> \<not> folded c"
    using chars set_parens_sub [of y] by (auto simp: kept_def)
  then have 2: "filter (\<lambda>c. \<not> punct c) (parens_sub y) = parens_sub y"
    by (auto simp: filter_id_conv)
  have 3: "replace a b (parens_sub y) = parens_sub y" if "folded a" for a b
    using p that by (intro replace_id) auto
  have f: "folded 0x622" "folded 0x623" "folded 0x625" "folded 0x624" "folded 0x626"
    "folded 0x629" "folded 0x649"
    by (simp_all add: folded_def)
  have n: "normalize_str y = strip (collapse_ws (strip_waw (parens_sub y)))"
    unfolding normalize_str_def Let_def
    by (simp only: 1 2 3 [OF f(1)] 3 [OF f(2)] 3 [OF f(3)] 3 [OF f(4)] 3 [OF f(5)] 3 [OF f(6)]
        3 [OF f(7)])
  have le: "length (normalize_str y) \<le> length (strip_waw (parens_sub y))"
    unfolding n
    using length_strip [of "collapse_ws (strip_waw (parens_sub y))"]
      length_collapse_ws [of "strip_waw (parens_sub y)"]
    by simp
  show ?thesis
  proof (cases "paren_pair y")
    case True
    then have "length (parens_sub y) < length y" using nl by (rule parens_sub_shorter)
    with le length_strip_waw [of "parens_sub y"] show ?thesis by simp
  next
    case False
    then have "parens_sub y = y" by (rule parens_sub_id)
    moreover from False bad have "startswith y [0x648]" by simp
    then have "length (strip_waw y) < length y" by (rule strip_waw_shorter)
    ultimately show ?thesis using le by simp
  qed
qed

section \<open>Parentheses in a normalized string\<close>

subsection \<open>No parenthesis pair survives in a string without line feed\<close>













subsection \<open>A pair that survives has whitespace inside\<close>






















section \<open>Properties of the registry builders\<close>

subsection \<open>The table from form to id set\<close>

lemma owners_snoc:
  "owners (ps @ [p]) F = (if fst p = F then insert (snd p) (owners ps F) else owners ps F)"
  by (cases p) (auto simp: owners_def)

lemma finite_owners: "finite (owners ps F)"
proof -
  have "owners ps F \<subseteq> snd ` set ps" by (force simp: owners_def)
  then show ?thesis by (rule finite_subset) simp
qed

lemma tabulatesD:
  assumes "tabulates ps d"
  shows "distinct (map fst d)"
    and "map_of d F = None \<longleftrightarrow> owners ps F = {}"
    and "map_of d F = Some ids \<Longrightarrow> distinct ids"
    and "map_of d F = Some ids \<Longrightarrow> set ids = owners ps F"
  using assms by (auto simp: tabulates_def)

lemma tabulates_step:
  assumes "tabulates ps d"
  shows "tabulates (ps @ [p]) (setdefault_add d p)"
proof -
  define v where "v = (case map_of d (fst p) of None \<Rightarrow> [snd p] | Some ids \<Rightarrow> List.insert (snd p) ids)"
  have d': "setdefault_add d p = AList.update (fst p) v d"
    by (simp add: setdefault_add_def v_def split: option.splits)
  have v: "distinct v \<and> set v = insert (snd p) (owners ps (fst p))"
  proof (cases "map_of d (fst p)")
    case None
    then have "v = [snd p]" by (simp add: v_def)
    moreover from None have "owners ps (fst p) = {}" by (simp only: tabulatesD(2) [OF assms])
    ultimately show ?thesis by simp
  next
    case (Some ids)
    then have "v = List.insert (snd p) ids" by (simp add: v_def)
    with tabulatesD(3,4) [OF assms Some] show ?thesis by simp
  qed
  have m: "map_of (setdefault_add d p) F = (if F = fst p then Some v else map_of d F)" for F
    by (simp add: d' update_conv')
  show ?thesis
    unfolding tabulates_def
  proof (intro conjI allI impI)
    show "distinct (map fst (setdefault_add d p))"
      unfolding d' using tabulatesD(1) [OF assms] by (rule distinct_update)
    show "map_of (setdefault_add d p) F = None \<longleftrightarrow> owners (ps @ [p]) F = {}" for F
      using tabulatesD(2) [OF assms, of F] by (auto simp: m owners_snoc)
    show "distinct ids" if "map_of (setdefault_add d p) F = Some ids" for F ids
      using that v tabulatesD(3) [OF assms, of F ids] by (auto simp: m split: if_splits)
    show "set ids = owners (ps @ [p]) F" if "map_of (setdefault_add d p) F = Some ids" for F ids
      using that v tabulatesD(4) [OF assms, of F ids] by (auto simp: m owners_snoc split: if_splits)
  qed
qed

lemma tabulates_fold: "tabulates ps (foldl setdefault_add [] ps)"
proof (induction ps rule: rev_induct)
  case Nil
  show ?case by (simp add: tabulates_def owners_def)
next
  case (snoc p ps)
  then show ?case by (simp add: tabulates_step)
qed

lemma map_of_filter_distinct:
  "distinct (map fst d) \<Longrightarrow>
   map_of (filter P d) k = (case map_of d k of None \<Rightarrow> None | Some v \<Rightarrow> if P (k, v) then Some v else None)"
proof (induction d)
  case Nil
  show ?case by simp
next
  case (Cons e d)
  obtain k' v' where e: "e = (k', v')" by (cases e)
  show ?case
  proof (cases "k' = k")
    case True
    with Cons.prems e have "k \<notin> fst ` set d" by auto
    then have "k \<notin> fst ` set (filter P d)" by auto
    then have "map_of (filter P d) k = None" by (simp only: map_of_eq_None_iff not_False_eq_True)
    with True e show ?thesis by simp
  next
    case False
    with Cons e show ?thesis by simp
  qed
qed

lemma map_of_unambiguous:
  assumes "distinct (map fst d)"
  shows "map_of (fst (unambiguous d)) F =
     (case map_of d F of None \<Rightarrow> None | Some ids \<Rightarrow> if length ids = 1 then Some (hd ids) else None)"
proof -
  have "map_of (fst (unambiguous d)) F =
      map_option hd (map_of (filter (\<lambda>(norm, ids). length ids = 1) d) F)"
    unfolding unambiguous_def fst_conv
    by (induction d) auto
  then show ?thesis
    using assms by (simp add: map_of_filter_distinct split: option.splits)
qed

lemma set_unambiguous:
  assumes "distinct (map fst d)"
  shows "F \<in> set (snd (unambiguous d)) \<longleftrightarrow> (\<exists>ids. map_of d F = Some ids \<and> length ids \<noteq> 1)"
  using assms by (force simp: unambiguous_def)

lemma lookup_iff:
  assumes "tabulates ps d"
  shows "map_of (fst (unambiguous d)) F = Some i \<longleftrightarrow> owners ps F = {i}"
proof -
  note u = map_of_unambiguous [OF tabulatesD(1) [OF assms], of F]
  show ?thesis
  proof (cases "map_of d F")
    case None
    then have "owners ps F = {}" by (simp only: tabulatesD(2) [OF assms])
    moreover from None have "map_of (fst (unambiguous d)) F = None" by (simp add: u)
    ultimately show ?thesis by simp
  next
    case (Some ids)
    from tabulatesD(3,4) [OF assms Some] have d: "distinct ids" and s: "set ids = owners ps F" .
    show ?thesis
    proof (cases "length ids = 1")
      case True
      then obtain j where j: "ids = [j]" by (cases ids) auto
      with Some have "map_of (fst (unambiguous d)) F = Some j" by (simp add: u)
      moreover from j s have "owners ps F = {j}" by simp
      ultimately show ?thesis by auto
    next
      case False
      with Some have 1: "map_of (fst (unambiguous d)) F = None" by (simp add: u)
      have "owners ps F \<noteq> {i}"
      proof
        assume "owners ps F = {i}"
        with s d have "length ids = 1" using distinct_card [of ids] by simp
        with False show False by simp
      qed
      with 1 show ?thesis by simp
    qed
  qed
qed

lemma collision_iff:
  assumes "tabulates ps d"
  shows "F \<in> set (snd (unambiguous d)) \<longleftrightarrow> 2 \<le> card (owners ps F)"
proof -
  note u = set_unambiguous [OF tabulatesD(1) [OF assms], of F]
  show ?thesis
  proof (cases "map_of d F")
    case None
    then have "owners ps F = {}" by (simp only: tabulatesD(2) [OF assms])
    moreover from None have "F \<notin> set (snd (unambiguous d))" by (simp add: u)
    ultimately show ?thesis by simp
  next
    case (Some ids)
    from tabulatesD(3,4) [OF assms Some] have d: "distinct ids" and s: "set ids = owners ps F" .
    from d s have c: "card (owners ps F) = length ids" using distinct_card [of ids] by simp
    have "owners ps F \<noteq> {}"
    proof
      assume "owners ps F = {}"
      then have "map_of d F = None" by (simp only: tabulatesD(2) [OF assms])
      with Some show False by simp
    qed
    with s have "length ids \<noteq> 0" by auto
    then have "2 \<le> length ids \<longleftrightarrow> length ids \<noteq> 1" by arith
    with c Some show ?thesis by (simp add: u)
  qed
qed

subsection \<open>The claims of the sources\<close>

lemma owners_cong: "set ps = set qs \<Longrightarrow> owners ps F = owners qs F"
  by (simp add: owners_def)

lemma set_norms_of:
  "set (norms_of names) = {F. F \<noteq> [] \<and> (\<exists>r \<in> set names. normalize_str r = F)}"
  unfolding norms_of_def
  by (induction names rule: rev_induct) (auto simp: Let_def)

lemma id_to_norms_snoc:
  "id_to_norms (nn @ [(i, names)]) =
     (if norms_of names \<noteq> [] then AList.update i (norms_of names) (id_to_norms nn) else id_to_norms nn)"
  by (simp add: id_to_norms_def Let_def)

lemma keys_id_to_norms: "fst ` set (id_to_norms nn) \<subseteq> fst ` set nn"
proof (induction nn rule: rev_induct)
  case Nil
  show ?case by (simp add: id_to_norms_def)
next
  case (snoc x nn)
  obtain i names where x: "x = (i, names)" by (cases x)
  from snoc show ?case
    unfolding x id_to_norms_snoc by (auto simp: dom_update)
qed

lemma update_fresh: "k \<notin> fst ` set al \<Longrightarrow> AList.update k v al = al @ [(k, v)]"
  by (induction al) auto

lemma set_id_to_norms:
  "distinct (map fst nn) \<Longrightarrow>
   set (id_to_norms nn) = {(i, norms_of names) | i names. (i, names) \<in> set nn \<and> norms_of names \<noteq> []}"
proof (induction nn rule: rev_induct)
  case Nil
  show ?case by (simp add: id_to_norms_def)
next
  case (snoc x nn)
  obtain i names where x: "x = (i, names)" by (cases x)
  from snoc.prems x have "i \<notin> fst ` set nn" and d: "distinct (map fst nn)" by auto
  with keys_id_to_norms [of nn] have "i \<notin> fst ` set (id_to_norms nn)" by blast
  then have "AList.update i (norms_of names) (id_to_norms nn) = id_to_norms nn @ [(i, norms_of names)]"
    by (rule update_fresh)
  with snoc.IH [OF d] show ?case
    unfolding x id_to_norms_snoc by auto
qed

lemma set_name_claims:
  "set (name_claims d) = {(F, i). \<exists>norms. (i, norms) \<in> set d \<and> F \<in> set norms}"
  by (auto simp: name_claims_def)

lemma set_source_claims:
  "set (source_claims nn) =
     {(F, i). F \<noteq> [] \<and> (\<exists>names. (i, names) \<in> set nn \<and> (\<exists>r \<in> set names. normalize_str r = F))}"
  by (auto simp: source_claims_def)

lemma name_claims_source:
  assumes "distinct (map fst nn)"
  shows "set (name_claims (id_to_norms nn)) = set (source_claims nn)"
proof -
  have "set (name_claims (id_to_norms nn)) =
      {(F, i). \<exists>names. (i, names) \<in> set nn \<and> norms_of names \<noteq> [] \<and> F \<in> set (norms_of names)}"
    unfolding set_name_claims set_id_to_norms [OF assms] by auto
  also have "\<dots> = {(F, i). \<exists>names. (i, names) \<in> set nn \<and> F \<in> set (norms_of names)}"
    by auto
  also have "\<dots> = set (source_claims nn)"
    unfolding set_source_claims set_norms_of by auto
  finally show ?thesis .
qed

lemma build_lookup_names:
  "foldl (build_lookup_name i) st names =
   foldl bl_claim st (map (\<lambda>r. (normalize_str r, i)) (filter (\<lambda>r. normalize_str r \<noteq> []) names))"
proof (induction names arbitrary: st)
  case Nil
  show ?case by simp
next
  case (Cons r names)
  have "normalize_str r \<noteq> [] \<Longrightarrow> build_lookup_name i st r = bl_claim st (normalize_str r, i)"
    by (simp add: build_lookup_name_def bl_claim_def Let_def split: option.splits)
  moreover have "normalize_str r = [] \<Longrightarrow> build_lookup_name i st r = st"
    by (simp add: build_lookup_name_def Let_def)
  ultimately show ?case using Cons by simp
qed

lemma build_lookup_from:
  "foldl (\<lambda>st (narrator_id, names). foldl (build_lookup_name narrator_id) st names) st nn =
   foldl bl_claim st (source_claims nn)"
proof (induction nn arbitrary: st)
  case Nil
  show ?case by (simp add: source_claims_def)
next
  case (Cons x nn)
  obtain i names where x: "x = (i, names)" by (cases x)
  have "source_claims (x # nn) =
      map (\<lambda>r. (normalize_str r, i)) (filter (\<lambda>r. normalize_str r \<noteq> []) names) @ source_claims nn"
    by (simp add: source_claims_def x)
  then show ?case using Cons [of "foldl (build_lookup_name i) st names"]
    by (simp add: x build_lookup_names)
qed

lemma build_lookup_claims: "build_lookup nn = foldl bl_claim ([], []) (source_claims nn)"
  by (simp add: build_lookup_def build_lookup_from)

lemma first_winsD:
  assumes "first_wins ps st"
  shows "map_of (fst st) F = None \<longleftrightarrow> owners ps F = {}"
    and "map_of (fst st) F = Some i \<Longrightarrow> i \<in> owners ps F"
    and "F \<in> set (snd st) \<longleftrightarrow> (\<exists>i j. map_of (fst st) F = Some i \<and> j \<in> owners ps F \<and> j \<noteq> i)"
  using assms by (auto simp: first_wins_def)

lemma first_wins_step:
  assumes "first_wins ps st"
  shows "first_wins (ps @ [p]) (bl_claim st p)"
proof (cases "map_of (fst st) (fst p)")
  case None
  then have b: "bl_claim st p = (AList.update (fst p) (snd p) (fst st), snd st)"
    by (simp add: bl_claim_def)
  from None have e: "owners ps (fst p) = {}" by (simp only: first_winsD(1) [OF assms])
  show ?thesis
    unfolding first_wins_def b fst_conv snd_conv update_conv'
  proof (intro conjI allI impI)
    fix F
    show "((map_of (fst st))(fst p \<mapsto> snd p)) F = None \<longleftrightarrow> owners (ps @ [p]) F = {}"
      using first_winsD(1) [OF assms, of F] by (auto simp: owners_snoc)
    show "i \<in> owners (ps @ [p]) F" if "((map_of (fst st))(fst p \<mapsto> snd p)) F = Some i" for i
      using that first_winsD(2) [OF assms, of F i] by (auto simp: owners_snoc split: if_splits)
    show "F \<in> set (snd st) \<longleftrightarrow>
        (\<exists>i j. ((map_of (fst st))(fst p \<mapsto> snd p)) F = Some i \<and> j \<in> owners (ps @ [p]) F \<and> j \<noteq> i)"
      using first_winsD(3) [OF assms, of F] None e by (auto simp: owners_snoc)
  qed
next
  case (Some i0)
  show ?thesis
  proof (cases "i0 = snd p")
    case True
    with Some have b: "bl_claim st p = st" by (simp add: bl_claim_def)
    from Some True have o: "snd p \<in> owners ps (fst p)" using first_winsD(2) [OF assms] by blast
    then have "owners (ps @ [p]) F = owners ps F" for F by (auto simp: owners_snoc)
    with assms show ?thesis unfolding b by (simp add: first_wins_def)
  next
    case False
    with Some have b: "bl_claim st p = (fst st, List.insert (fst p) (snd st))"
      by (simp add: bl_claim_def)
    show ?thesis
      unfolding first_wins_def b fst_conv snd_conv
    proof (intro conjI allI impI)
      fix F
      show "map_of (fst st) F = None \<longleftrightarrow> owners (ps @ [p]) F = {}"
        using first_winsD(1) [OF assms, of F] Some by (auto simp: owners_snoc)
      show "i \<in> owners (ps @ [p]) F" if "map_of (fst st) F = Some i" for i
        using that first_winsD(2) [OF assms, of F i] by (auto simp: owners_snoc)
      show "F \<in> set (List.insert (fst p) (snd st)) \<longleftrightarrow>
          (\<exists>i j. map_of (fst st) F = Some i \<and> j \<in> owners (ps @ [p]) F \<and> j \<noteq> i)"
        using first_winsD(3) [OF assms, of F] Some False by (auto simp: owners_snoc)
    qed
  qed
qed

lemma first_wins_fold: "first_wins ps (foldl bl_claim ([], []) ps)"
proof (induction ps rule: rev_induct)
  case Nil
  show ?case by (simp add: first_wins_def owners_def)
next
  case (snoc p ps)
  then show ?case by (simp add: first_wins_step)
qed

lemma first_wins_build_lookup: "first_wins (source_claims nn) (build_lookup nn)"
  unfolding build_lookup_claims by (rule first_wins_fold)

lemma shamela_claim_nonempty: "(F, i) \<in> set (shamela_claim n) \<Longrightarrow> F \<noteq> []"
  by (simp add: shamela_claim_def Let_def split: if_splits)

lemma claims_nonempty:
  "(F, i) \<in> set (source_claims nn) \<Longrightarrow> F \<noteq> []"
  "(F, i) \<in> set (shamela_claims pages) \<Longrightarrow> F \<noteq> []"
proof -
  show "(F, i) \<in> set (source_claims nn) \<Longrightarrow> F \<noteq> []"
    by (simp add: set_source_claims)
  assume "(F, i) \<in> set (shamela_claims pages)"
  then obtain n where "(F, i) \<in> set (shamela_claim n)"
    by (auto simp: shamela_claims_def)
  then show "F \<noteq> []" by (rule shamela_claim_nonempty)
qed

lemma two_owners:
  assumes "i1 \<in> owners ps F" "i2 \<in> owners ps F" "i1 \<noteq> i2"
  shows "2 \<le> card (owners ps F)"
proof -
  from assms have "{i1, i2} \<subseteq> owners ps F" by simp
  then have "card {i1, i2} \<le> card (owners ps F)" by (rule card_mono [OF finite_owners])
  with assms(3) show ?thesis by simp
qed

lemma two_owners_not_single:
  assumes "2 \<le> card (owners ps F)"
  shows "owners ps F \<noteq> {i}"
proof
  assume "owners ps F = {i}"
  then have "card (owners ps F) = 1" by simp
  with assms show False by simp
qed

subsection \<open>Lookup table and collision set partition the claimed forms\<close>

lemma lookup_dom_iff:
  assumes "tabulates ps d"
  shows "map_of (fst (unambiguous d)) F \<noteq> None \<longleftrightarrow> card (owners ps F) = 1"
proof -
  have "map_of (fst (unambiguous d)) F \<noteq> None \<longleftrightarrow> (\<exists>i. owners ps F = {i})"
    using lookup_iff [OF assms, of F] by auto
  then show ?thesis by (simp add: card_1_singleton_iff)
qed

lemma claimed_card: "owners ps F \<noteq> {} \<Longrightarrow> card (owners ps F) = 1 \<or> 2 \<le> card (owners ps F)"
proof -
  assume "owners ps F \<noteq> {}"
  then have "card (owners ps F) \<noteq> 0" using finite_owners [of ps F] by simp
  then show ?thesis by arith
qed

lemma partition:
  assumes "tabulates ps d"
  shows "map_of (fst (unambiguous d)) F \<noteq> None \<longleftrightarrow> card (owners ps F) = 1"
    and "F \<in> set (snd (unambiguous d)) \<longleftrightarrow> 2 \<le> card (owners ps F)"
    and "owners ps F \<noteq> {} \<Longrightarrow> (map_of (fst (unambiguous d)) F \<noteq> None) \<noteq> (F \<in> set (snd (unambiguous d)))"
    and "map_of (fst (unambiguous d)) F \<noteq> None \<Longrightarrow> F \<notin> set (snd (unambiguous d))"
proof -
  show 1: "map_of (fst (unambiguous d)) F \<noteq> None \<longleftrightarrow> card (owners ps F) = 1"
    by (rule lookup_dom_iff [OF assms])
  show 2: "F \<in> set (snd (unambiguous d)) \<longleftrightarrow> 2 \<le> card (owners ps F)"
    by (rule collision_iff [OF assms])
  show "(map_of (fst (unambiguous d)) F \<noteq> None) \<noteq> (F \<in> set (snd (unambiguous d)))"
    if "owners ps F \<noteq> {}"
    using claimed_card [OF that] unfolding 1 2 by arith
  show "F \<notin> set (snd (unambiguous d))" if "map_of (fst (unambiguous d)) F \<noteq> None"
    using that unfolding 1 2 by arith
qed

lemma shamela_tabulates:
  "tabulates (shamela_claims pages) (foldl setdefault_add [] (shamela_claims pages))"
  by (rule tabulates_fold)

lemma names_tabulates:
  "tabulates (name_claims (id_to_norms nn)) (norm_to_ids (id_to_norms nn))"
  unfolding norm_to_ids_def by (rule tabulates_fold)

lemma names_parts:
  "fst (build_narrator_name_lookup nn) = fst (unambiguous (norm_to_ids (id_to_norms nn)))"
  "fst (snd (build_narrator_name_lookup nn)) = snd (unambiguous (norm_to_ids (id_to_norms nn)))"
  by (simp_all add: build_narrator_name_lookup_def Let_def)

lemma names_owners:
  "distinct (map fst nn) \<Longrightarrow> owners (name_claims (id_to_norms nn)) F = owners (source_claims nn) F"
  by (rule owners_cong) (rule name_claims_source)

lemma pass1_unguarded:
  assumes "\<And>F. sl F \<noteq> None \<Longrightarrow> F \<notin> sc"
  shows "pass1 sl sc norm =
     (case sl norm of None \<Rightarrow> (None, None) | Some i \<Rightarrow> (Some i, Some ''shamela_cross_ref''))"
  using assms [of norm] by (cases "sl norm") (auto simp: pass1_def)

lemma lc_try_unguarded:
  assumes "\<And>F. sl F \<noteq> None \<Longrightarrow> F \<notin> sc" "\<And>F. nl F \<noteq> None \<Longrightarrow> F \<notin> nc"
  shows "lc_try sl nl sc nc norm = (case sl norm of None \<Rightarrow> nl norm | Some i \<Rightarrow> Some i)"
  using assms(1) [of norm] assms(2) [of norm]
  by (cases "sl norm"; cases "nl norm") (auto simp: lc_try_def)

section \<open>Properties of the resolution passes\<close>

subsection \<open>Id and tag are set together\<close>

lemma truthy_Some: "truthy r \<Longrightarrow> r \<noteq> None"
  by (cases r) (auto simp: truthy_def)

lemma tagged_pass1: "tagged (pass1 sl sc norm)"
  by (simp add: tagged_def pass1_def truthy_def)

lemma tagged_pass2: "tagged st \<Longrightarrow> tagged (pass2 sl sc cm nl nc nci raw student st)"
  by (auto simp: tagged_def pass2_def Let_def split: option.splits)

lemma tagged_pass3: "tagged st \<Longrightarrow> tagged (pass3 sl sc nm nl nc nci raw st)"
  by (auto simp: tagged_def pass3_def Let_def split: option.splits)

lemma paired_apply_result: "tagged st \<Longrightarrow> paired (apply_result st n)"
  by (auto simp: paired_def apply_result_def tagged_def dest: truthy_Some)

lemma paired_resolve_unmatched: "paired (resolve_unmatched sl sc cm nm nl nc nci student n)"
  unfolding resolve_unmatched_def Let_def
  by (intro paired_apply_result tagged_pass3 tagged_pass2 tagged_pass1)

lemma paired_resolve_narrator:
  "resolve_narrator sl sc cm nm nl nc nci prev n = Inr n' \<Longrightarrow> paired n'"
proof (cases "narrator_id n = None")
  case True
  assume "resolve_narrator sl sc cm nm nl nc nci prev n = Inr n'"
  with True obtain s where "n' = resolve_unmatched sl sc cm nm nl nc nci s n"
    by (auto simp: resolve_narrator_def split: sum.splits)
  then show ?thesis by (simp add: paired_resolve_unmatched)
next
  case False
  assume "resolve_narrator sl sc cm nm nl nc nci prev n = Inr n'"
  with False have "n' = n\<lparr>narrator_id_resolution := Some ''exact_match''\<rparr>"
    by (auto simp: resolve_narrator_def)
  with False show ?thesis by (simp add: paired_def)
qed

lemma paired_resolve_narrators:
  "resolve_narrators sl sc cm nm nl nc nci prev ns = Inr ns' \<Longrightarrow> \<forall>n \<in> set ns'. paired n"
proof (induction ns arbitrary: prev ns')
  case Nil
  then show ?case by simp
next
  case (Cons n ns)
  then show ?case
    by (auto split: sum.splits dest: paired_resolve_narrator)
qed

lemma map_err_Inr: "map_err f xs = Inr ys \<Longrightarrow> list_all2 (\<lambda>x y. f x = Inr y) xs ys"
proof (induction xs arbitrary: ys)
  case Nil
  then show ?case by simp
next
  case (Cons x xs)
  then show ?case by (auto split: sum.splits)
qed

lemma map_err_total: "\<forall>x \<in> set xs. \<exists>y. f x = Inr y \<Longrightarrow> \<exists>ys. map_err f xs = Inr ys"
  by (induction xs) (auto split: sum.splits)

lemma paired_resolve_hadith:
  assumes "resolve_hadith sl sc cm nm nl nc nci h = Inr h'"
  shows "\<forall>n \<in> set (all_narrators h'). paired n"
proof -
  from assms obtain cs where cs: "map_err (resolve_chain sl sc cm nm nl nc nci) (chains h) = Inr cs"
    and h': "h' = h\<lparr>chains := cs\<rparr>"
    by (auto simp: resolve_hadith_def split: sum.splits)
  have "\<forall>n \<in> set (narrators c'). paired n" if "c' \<in> set cs" for c'
  proof -
    from map_err_Inr [OF cs] that obtain c where "resolve_chain sl sc cm nm nl nc nci c = Inr c'"
      by (auto simp: list_all2_conv_all_nth in_set_conv_nth)
    then obtain ns where "resolve_narrators sl sc cm nm nl nc nci None (narrators c) = Inr ns"
      and "c' = c\<lparr>narrators := ns\<rparr>"
      by (auto simp: resolve_chain_def split: sum.splits)
    then show ?thesis using paired_resolve_narrators by auto
  qed
  then show ?thesis by (auto simp: all_narrators_def h')
qed

lemma paired_assign_narrators:
  "\<forall>n \<in> set ns. paired n \<Longrightarrow> \<forall>n \<in> set (fst (assign_narrators ns ids)). paired n"
  by (induction ns ids rule: assign_narrators.induct) (auto simp: paired_def Let_def)

lemma paired_assign_chains:
  "\<forall>c \<in> set cs. \<forall>n \<in> set (narrators c). paired n \<Longrightarrow>
   \<forall>c \<in> set (assign_chains cs ids). \<forall>n \<in> set (narrators c). paired n"
proof (induction cs arbitrary: ids)
  case Nil
  then show ?case by simp
next
  case (Cons c cs)
  then show ?case
    using paired_assign_narrators [of "narrators c" ids] by (auto simp: Let_def)
qed

lemma paired_pass4:
  assumes "\<forall>n \<in> set (all_narrators h). paired n"
  shows "\<forall>n \<in> set (all_narrators (resolve_pass4_hadith idx h)). paired n"
proof -
  have "\<forall>n \<in> set (all_narrators (h\<lparr>chains := assign_chains (chains h) ids\<rparr>)). paired n" for ids
    using assms paired_assign_chains [of "chains h" ids] by (auto simp: all_narrators_def)
  with assms show ?thesis
    by (auto simp: resolve_pass4_hadith_def split: list.splits)
qed

lemma resolve_narrators_total:
  "\<forall>n \<in> set ns. name n \<noteq> None \<Longrightarrow> prev = None \<or> (\<exists>p. prev = Some p \<and> name p \<noteq> None) \<Longrightarrow>
   \<exists>ns'. resolve_narrators sl sc cm nm nl nc nci prev ns = Inr ns'"
proof (induction ns arbitrary: prev)
  case Nil
  then show ?case by simp
next
  case (Cons n ns)
  from Cons.prems(2) obtain s where "student_name_of prev = Inr s"
    by (auto simp: student_name_of_def)
  then have "\<exists>n'. resolve_narrator sl sc cm nm nl nc nci prev n = Inr n'"
    by (cases "narrator_id n = None") (simp_all add: resolve_narrator_def)
  then obtain n' where 1: "resolve_narrator sl sc cm nm nl nc nci prev n = Inr n'" ..
  from Cons.prems(1) have "\<exists>ns'. resolve_narrators sl sc cm nm nl nc nci (Some n) ns = Inr ns'"
    by (intro Cons.IH) auto
  with 1 show ?case by auto
qed

lemma resolve_total:
  assumes "\<forall>h \<in> set hs. \<forall>n \<in> set (all_narrators h). name n \<noteq> None"
  shows "\<exists>hs'. resolve hs sl sc cm nm nl nc nci = Inr hs'"
  unfolding resolve_def
proof (rule map_err_total, rule ballI)
  fix h assume h: "h \<in> set hs"
  have "\<exists>cs. map_err (resolve_chain sl sc cm nm nl nc nci) (chains h) = Inr cs"
  proof (rule map_err_total, rule ballI)
    fix c assume "c \<in> set (chains h)"
    with assms h have "\<forall>n \<in> set (narrators c). name n \<noteq> None"
      by (auto simp: all_narrators_def)
    then obtain ns where "resolve_narrators sl sc cm nm nl nc nci None (narrators c) = Inr ns"
      using resolve_narrators_total [of "narrators c" None] by blast
    then show "\<exists>c'. resolve_chain sl sc cm nm nl nc nci c = Inr c'"
      by (simp add: resolve_chain_def)
  qed
  then show "\<exists>h'. resolve_hadith sl sc cm nm nl nc nci h = Inr h'"
    by (auto simp: resolve_hadith_def)
qed

subsection \<open>What each pass decides\<close>

lemma pass2_skipped: "pass2 sl sc cm nl nc nci raw [] st = st"
  by (simp add: pass2_def)

lemma resolve_unmatched_first:
  "resolve_unmatched sl sc cm nm nl nc nci [] n = resolve_unmatched sl sc cm' nm nl nc nci [] n"
  by (simp add: resolve_unmatched_def pass2_skipped)

lemma pass1_tag: "snd (pass1 sl sc norm) \<noteq> Some ''context_mapping''"
  by (simp add: pass1_def)

lemma pass3_tag:
  "snd st \<noteq> Some ''context_mapping'' \<Longrightarrow> snd (pass3 sl sc nm nl nc nci raw st) \<noteq> Some ''context_mapping''"
  by (auto simp: pass3_def Let_def split: option.splits)

lemma apply_result_tag:
  "snd st \<noteq> Some t \<Longrightarrow> narrator_id_resolution (apply_result st n) \<noteq> Some t"
  by (simp add: apply_result_def)

lemma resolve_unmatched_first_tag:
  "narrator_id_resolution (resolve_unmatched sl sc cm nm nl nc nci [] n) \<noteq> Some ''context_mapping''"
  unfolding resolve_unmatched_def Let_def pass2_skipped
  by (intro apply_result_tag pass3_tag pass1_tag)

lemma assign_narrators_keeps:
  "list_all2 (\<lambda>a b. narrator_id a \<noteq> None \<longrightarrow> b = a) ns (fst (assign_narrators ns ids))"
  by (induction ns ids rule: assign_narrators.induct) (auto simp: Let_def intro: list_all2_refl)

lemma assign_chains_keeps:
  "list_all2 (\<lambda>a b. narrator_id a \<noteq> None \<longrightarrow> b = a)
     (concat (map narrators cs)) (concat (map narrators (assign_chains cs ids)))"
proof (induction cs arbitrary: ids)
  case Nil
  show ?case by simp
next
  case (Cons c cs)
  show ?case
    using assign_narrators_keeps [of "narrators c" ids] Cons [of "snd (assign_narrators (narrators c) ids)"]
    by (auto simp: Let_def intro: list_all2_appendI)
qed

lemma pass4_keeps:
  "list_all2 (\<lambda>a b. narrator_id a \<noteq> None \<longrightarrow> b = a)
     (all_narrators h) (all_narrators (resolve_pass4_hadith idx h))"
proof -
  have "list_all2 (\<lambda>a b. narrator_id a \<noteq> None \<longrightarrow> b = a)
     (all_narrators h) (all_narrators (h\<lparr>chains := assign_chains (chains h) ids\<rparr>))" for ids
    using assign_chains_keeps [of "chains h" ids] by (simp add: all_narrators_def)
  then show ?thesis
    by (auto simp: resolve_pass4_hadith_def intro: list_all2_refl split: list.splits)
qed

lemma pass0:
  "narrator_id n \<noteq> None \<Longrightarrow>
   resolve_narrator sl sc cm nm nl nc nci prev n = Inr (n\<lparr>narrator_id_resolution := Some ''exact_match''\<rparr>)"
  by (simp add: resolve_narrator_def)

lemma pass1_wins:
  assumes "narrator_id n = None" "student_name_of prev = Inr student"
    and "sl (normalize_str (get_default (name n))) = Some i" "i \<noteq> []"
    and "normalize_str (get_default (name n)) \<notin> sc"
  shows "resolve_narrator sl sc cm nm nl nc nci prev n =
     Inr (n\<lparr>narrator_id := Some i, narrator_id_resolution := Some ''shamela_cross_ref'',
            narrator_id_ambiguous := None\<rparr>)"
  using assms
  by (simp add: resolve_narrator_def resolve_unmatched_def pass1_def pass2_def pass3_def
      apply_result_def truthy_def)

lemma pass2_wins:
  assumes "narrator_id n = None" "student_name_of prev = Inr student"
    and "sl (normalize_str (get_default (name n))) = None \<or> normalize_str (get_default (name n)) \<in> sc"
    and "student \<noteq> []" "cm (get_default (name n) @ [0x7C] @ student) = Some canonical"
    and "lookup_canonical canonical sl nl sc nc nci = Some i" "i \<noteq> []"
  shows "resolve_narrator sl sc cm nm nl nc nci prev n =
     Inr (n\<lparr>narrator_id := Some i, narrator_id_resolution := Some ''context_mapping'',
            narrator_id_ambiguous := None\<rparr>)"
proof -
  from assms(3) have "pass1 sl sc (normalize_str (get_default (name n))) = (None, None)"
    by (auto simp: pass1_def)
  with assms show ?thesis
    by (simp add: resolve_narrator_def resolve_unmatched_def pass2_def pass3_def
        apply_result_def truthy_def)
qed

lemma pass3_wins:
  assumes "narrator_id n = None" "student_name_of prev = Inr student"
    and "sl (normalize_str (get_default (name n))) = None \<or> normalize_str (get_default (name n)) \<in> sc"
    and "student = [] \<or> cm (get_default (name n) @ [0x7C] @ student) = None \<or>
         (\<exists>c2. cm (get_default (name n) @ [0x7C] @ student) = Some c2 \<and>
               lookup_canonical c2 sl nl sc nc nci = None)"
    and "nm (get_default (name n)) = Some canonical"
    and "lookup_canonical canonical sl nl sc nc nci = Some i" "i \<noteq> []"
  shows "resolve_narrator sl sc cm nm nl nc nci prev n =
     Inr (n\<lparr>narrator_id := Some i, narrator_id_resolution := Some ''name_mapping'',
            narrator_id_ambiguous := None\<rparr>)"
proof -
  from assms(3) have 1: "pass1 sl sc (normalize_str (get_default (name n))) = (None, None)"
    by (auto simp: pass1_def)
  from assms(4) have 2: "pass2 sl sc cm nl nc nci (get_default (name n)) student (None, None) = (None, None)"
    by (auto simp: pass2_def truthy_def)
  from assms 1 2 show ?thesis
    by (simp add: resolve_narrator_def resolve_unmatched_def pass3_def apply_result_def truthy_def)
qed

subsection \<open>Evaluation on concrete inputs\<close>

lemmas resolve_eval = resolve_def resolve_hadith_def resolve_chain_def resolve_narrator_def
  resolve_unmatched_def pass1_def pass2_def pass3_def apply_result_def student_name_of_def
  truthy_def get_default_def lookup_canonical_def lc_try_def split_ws_def

lemmas pass4_eval = resolve_pass4_matn_def resolve_pass4_hadith_def null_slots_def
  all_narrators_def shamela_matches_def extra_ids_def resolved_ids_def

lemmas names_eval = zayd_def umar_def anas_def

lemma normalize_names:
  "normalize_str zayd = zayd" "normalize_str umar = umar" "normalize_str anas = [0x627, 0x646, 0x633]"
  by (simp_all add: zayd_def umar_def anas_def normalize_eval)

lemma matn_key:
  "normalize_str matn_text = matn_key" "length matn_key = 20" "take 100 matn_key = matn_key"
  "matn_text \<noteq> []"
  by (simp_all add: matn_text_def matn_key_def normalize_eval)

lemma sorted_ids: "sorted_list_of_set {[0x39], [0x31, 0x30 :: nat]} = [[0x31, 0x30], [0x39]]"
proof -
  have "{[0x39], [0x31, 0x30 :: nat]} = set [[0x39], [0x31, 0x30]]" by simp
  then have "sorted_list_of_set {[0x39], [0x31, 0x30 :: nat]} = sort (remdups [[0x39], [0x31, 0x30]])"
    by (simp only: sorted_list_of_set_sort_remdups)
  then show ?thesis by simp
qed

section \<open>The passes, narrator by narrator\<close>

lemma map_err_nth:
  assumes "map_err f xs = Inr ys"
  shows "length ys = length xs" and "i < length xs \<Longrightarrow> f (xs ! i) = Inr (ys ! i)"
  using map_err_Inr [OF assms] by (auto simp: list_all2_conv_all_nth)

lemma resolve_narrators_nth:
  assumes "resolve_narrators sl sc cm nm nl nc nci prev ns = Inr ns'"
  shows "length ns' = length ns \<and>
     (\<forall>k < length ns.
        resolve_narrator sl sc cm nm nl nc nci (if k = 0 then prev else Some (ns ! (k - 1))) (ns ! k) =
          Inr (ns' ! k))"
  using assms
proof (induction ns arbitrary: prev ns')
  case Nil
  then show ?case by simp
next
  case (Cons n ns)
  from Cons.prems obtain n1 ns1 where
    1: "resolve_narrator sl sc cm nm nl nc nci prev n = Inr n1"
    and 2: "resolve_narrators sl sc cm nm nl nc nci (Some n) ns = Inr ns1"
    and 3: "ns' = n1 # ns1"
    by (auto split: sum.splits)
  note ih = Cons.IH [OF 2]
  show ?case
  proof (intro conjI allI impI)
    show "length ns' = length (n # ns)" using ih 3 by simp
    fix k assume k: "k < length (n # ns)"
    show "resolve_narrator sl sc cm nm nl nc nci
        (if k = 0 then prev else Some ((n # ns) ! (k - 1))) ((n # ns) ! k) = Inr (ns' ! k)"
    proof (cases k)
      case 0
      with 1 3 show ?thesis by simp
    next
      case (Suc j)
      with k have j: "j < length ns" by simp
      with ih have "resolve_narrator sl sc cm nm nl nc nci
          (if j = 0 then Some n else Some (ns ! (j - 1))) (ns ! j) = Inr (ns1 ! j)"
        by blast
      moreover have "(if j = 0 then Some n else Some (ns ! (j - 1))) = Some ((n # ns) ! j)"
        by (cases j) simp_all
      ultimately show ?thesis using Suc 3 by simp
    qed
  qed
qed

lemma resolve_mention:
  assumes r: "resolve hs sl sc cm nm nl nc nci = Inr hs1" and i: "in_range hs hi ci k"
  shows "in_range hs1 hi ci k"
    and "resolve_narrator sl sc cm nm nl nc nci (predecessor hs hi ci k) (mention hs hi ci k) =
           Inr (mention hs1 hi ci k)"
proof -
  from i have hi: "hi < length hs" and ci: "ci < length (chains (hs ! hi))"
    and k: "k < length (narrators (chains (hs ! hi) ! ci))"
    by (simp_all add: in_range_def)
  note m = map_err_nth [OF r [unfolded resolve_def]]
  from m(2) [OF hi] obtain cs where
    cs: "map_err (resolve_chain sl sc cm nm nl nc nci) (chains (hs ! hi)) = Inr cs"
    and h1: "hs1 ! hi = (hs ! hi)\<lparr>chains := cs\<rparr>"
    by (auto simp: resolve_hadith_def split: sum.splits)
  note mc = map_err_nth [OF cs]
  from mc(2) [OF ci] obtain ns where
    ns: "resolve_narrators sl sc cm nm nl nc nci None (narrators (chains (hs ! hi) ! ci)) = Inr ns"
    and c1: "cs ! ci = (chains (hs ! hi) ! ci)\<lparr>narrators := ns\<rparr>"
    by (auto simp: resolve_chain_def split: sum.splits)
  note n = resolve_narrators_nth [OF ns]
  have nar: "narrators (chains (hs1 ! hi) ! ci) = ns" by (simp add: h1 c1)
  show "in_range hs1 hi ci k"
    using hi ci k m(1) mc(1) n by (simp add: in_range_def h1 c1)
  from n k have "resolve_narrator sl sc cm nm nl nc nci
      (if k = 0 then None else Some (narrators (chains (hs ! hi) ! ci) ! (k - 1)))
      (narrators (chains (hs ! hi) ! ci) ! k) = Inr (ns ! k)"
    by blast
  then show "resolve_narrator sl sc cm nm nl nc nci (predecessor hs hi ci k) (mention hs hi ci k) =
           Inr (mention hs1 hi ci k)"
    unfolding predecessor_def mention_def nar .
qed

lemma pass4_step_refl: "pass4_step a a"
  by (simp add: pass4_step_def)

lemma assign_narrators_step: "list_all2 pass4_step ns (fst (assign_narrators ns ids))"
proof (induction ns ids rule: assign_narrators.induct)
  case (1 ids)
  show ?case by simp
next
  case (2 n ns)
  show ?case by (simp add: list_all2_refl pass4_step_refl)
next
  case (3 n ns new_id ids)
  show ?case
  proof (cases "narrator_id n = None")
    case True
    with 3 have "list_all2 pass4_step ns (fst (assign_narrators ns ids))" by simp
    moreover from True have "pass4_step n (n\<lparr>narrator_id := Some new_id,
        narrator_id_resolution := Some ''matn_chain_match'', narrator_id_ambiguous := None\<rparr>)"
      by (auto simp: pass4_step_def)
    moreover from True have "assign_narrators (n # ns) (new_id # ids) =
        (n\<lparr>narrator_id := Some new_id, narrator_id_resolution := Some ''matn_chain_match'',
           narrator_id_ambiguous := None\<rparr> # fst (assign_narrators ns ids),
         snd (assign_narrators ns ids))"
      by (simp add: Let_def)
    ultimately show ?thesis by simp
  next
    case False
    with 3 have "list_all2 pass4_step ns (fst (assign_narrators ns (new_id # ids)))" by simp
    moreover from False obtain y where "narrator_id n = Some y" by auto
    then have "assign_narrators (n # ns) (new_id # ids) =
        (n # fst (assign_narrators ns (new_id # ids)), snd (assign_narrators ns (new_id # ids)))"
      by (simp add: Let_def)
    ultimately show ?thesis by (simp add: pass4_step_refl)
  qed
qed

lemma assign_chains_step:
  "list_all2 (\<lambda>c c'. list_all2 pass4_step (narrators c) (narrators c')) cs (assign_chains cs ids)"
proof (induction cs arbitrary: ids)
  case Nil
  show ?case by simp
next
  case (Cons c cs)
  show ?case
    using assign_narrators_step [of "narrators c" ids] Cons [of "snd (assign_narrators (narrators c) ids)"]
    by (simp add: Let_def)
qed

lemma pass4_hadith_step:
  "list_all2 (\<lambda>c c'. list_all2 pass4_step (narrators c) (narrators c'))
     (chains h) (chains (resolve_pass4_hadith idx h))"
proof -
  have same: "list_all2 (\<lambda>c c'. list_all2 pass4_step (narrators c) (narrators c')) (chains h) (chains h)"
    by (intro list_all2_refl) (simp add: pass4_step_refl)
  have "list_all2 (\<lambda>c c'. list_all2 pass4_step (narrators c) (narrators c'))
      (chains h) (chains (h\<lparr>chains := assign_chains (chains h) ids\<rparr>))" for ids
    using assign_chains_step [of "chains h" ids] by simp
  with same show ?thesis
    by (auto simp: resolve_pass4_hadith_def split: list.splits)
qed

lemma pass4_mention:
  assumes i: "in_range hs hi ci k"
  shows "in_range (resolve_pass4_matn hs idx) hi ci k"
    and "pass4_step (mention hs hi ci k) (mention (resolve_pass4_matn hs idx) hi ci k)"
proof -
  from i have hi: "hi < length hs" and ci: "ci < length (chains (hs ! hi))"
    and k: "k < length (narrators (chains (hs ! hi) ! ci))"
    by (simp_all add: in_range_def)
  let ?h' = "resolve_pass4_hadith idx (hs ! hi)"
  from hi have h: "resolve_pass4_matn hs idx ! hi = ?h'"
    by (simp add: resolve_pass4_matn_def)
  have l: "length (resolve_pass4_matn hs idx) = length hs"
    by (simp add: resolve_pass4_matn_def)
  note c = pass4_hadith_step [of "hs ! hi" idx]
  from c have lc: "length (chains ?h') = length (chains (hs ! hi))"
    by (simp add: list_all2_lengthD)
  from c ci have n: "list_all2 pass4_step (narrators (chains (hs ! hi) ! ci)) (narrators (chains ?h' ! ci))"
    by (rule list_all2_nthD)
  from n have ln: "length (narrators (chains ?h' ! ci)) = length (narrators (chains (hs ! hi) ! ci))"
    by (simp add: list_all2_lengthD)
  show "in_range (resolve_pass4_matn hs idx) hi ci k"
    unfolding in_range_def h l lc ln using hi ci k by simp
  from n k have "pass4_step (narrators (chains (hs ! hi) ! ci) ! k) (narrators (chains ?h' ! ci) ! k)"
    by (rule list_all2_nthD)
  then show "pass4_step (mention hs hi ci k) (mention (resolve_pass4_matn hs idx) hi ci k)"
    unfolding mention_def h .
qed

lemma student_known:
  "narrator_id n = None \<Longrightarrow> resolve_narrator sl sc cm nm nl nc nci prev n = Inr n1 \<Longrightarrow>
   \<exists>s. student_name_of prev = Inr s"
  by (cases "student_name_of prev") (simp_all add: resolve_narrator_def)

lemma pass4_step_resolved: "pass4_step a b \<Longrightarrow> narrator_id a \<noteq> None \<Longrightarrow> b = a"
  by (simp add: pass4_step_def)

lemma pass4_step_tag:
  "pass4_step a b \<Longrightarrow> narrator_id a = None \<Longrightarrow> narrator_id b \<noteq> None \<Longrightarrow>
   narrator_id_resolution b = Some ''matn_chain_match''"
  by (auto simp: pass4_step_def)

section \<open>Properties of the canonical-name lookup\<close>

text \<open>Forgetting the route gives \<open>lookup_canonical\<close> back.\<close>

lemma try_disambiguate_route_erase:
  "map_option fst (try_disambiguate_route nci prefix norm) = try_disambiguate nci prefix norm"
  by (simp add: try_disambiguate_route_def try_disambiguate_def split: option.splits)

lemma prefix_loop_route_erase:
  "map_option fst (prefix_loop_route sl nl sc nc nci parts norm e) =
   prefix_loop sl nl sc nc nci parts norm e"
proof (induction e)
  case 0
  show ?case by simp
next
  case (Suc e)
  show ?case
    using Suc try_disambiguate_route_erase [of nci "join_sp (take (Suc e) parts)" norm]
    by (auto simp: Let_def option.map_comp comp_def option.map_ident)
qed

lemma lookup_canonical_route_erase:
  "map_option fst (lookup_canonical_route canonical sl nl sc nc nci) =
   lookup_canonical canonical sl nl sc nc nci"
  by (simp add: lookup_canonical_route_def lookup_canonical_def Let_def prefix_loop_route_erase
      option.map_comp comp_def option.map_ident)

subsection \<open>Scenario B, evaluated\<close>

lemma aisha_norm:
  "normalize_str aisha_bint = aisha_bint"
  "normalize_str aisha_bint_abi_bakr = aisha_bint_abi_bakr"
  "normalize_str aisha_bint_saad = aisha_bint_saad"
  "normalize_str aisha_canonical = aisha_bint_abi_bakr"
  by (simp_all add: aisha_bint_def aisha_bint_abi_bakr_def aisha_bint_saad_def
      aisha_canonical_def normalize_eval)

lemma aisha_neq:
  "aisha_bint \<noteq> aisha_bint_abi_bakr" "aisha_bint \<noteq> aisha_bint_saad"
  "aisha_bint_abi_bakr \<noteq> aisha_bint_saad" "aisha_bint \<noteq> []" "aisha_bint_abi_bakr \<noteq> []"
  "aisha_bint_saad \<noteq> []" "aisha_bint_abi_bakr \<noteq> aisha_bint" "aisha_bint_saad \<noteq> aisha_bint"
  "aisha_bint_saad \<noteq> aisha_bint_abi_bakr"
  by (simp_all add: aisha_bint_def aisha_bint_abi_bakr_def aisha_bint_saad_def)

lemma aisha_len:
  "length aisha_bint = 9" "length aisha_bint_abi_bakr = 17" "length aisha_bint_saad = 13"
  by (simp_all add: aisha_bint_def aisha_bint_abi_bakr_def aisha_bint_saad_def)

lemma aisha_prefix:
  "startswith aisha_bint_abi_bakr aisha_bint_abi_bakr"
  "\<not> startswith aisha_bint_abi_bakr aisha_bint_saad"
  "startswith aisha_bint_abi_bakr aisha_bint"
  by (simp_all add: startswith_def aisha_bint_def aisha_bint_abi_bakr_def aisha_bint_saad_def)

lemma aisha_built:
  "build_narrator_name_lookup aisha_names = (aisha_lookup, [aisha_bint], aisha_index)"
  by (simp add: build_narrator_name_lookup_def id_to_norms_def norms_of_def norm_to_ids_def
      name_claims_def setdefault_add_def unambiguous_def collision_index_of_def longest_first_def
      aisha_names_def aisha_lookup_def aisha_index_def aisha_norm aisha_neq aisha_len Let_def)

lemma aisha_route:
  "lookup_canonical_route aisha_canonical Map.empty (map_of aisha_lookup) {} {aisha_bint}
     (Some (map_of aisha_index)) = Some ([0x31, 0x30], Full_match)"
  by (simp add: lookup_canonical_route_def lc_try_def truthy_def aisha_norm aisha_neq
      aisha_lookup_def)

lemma aisha_positive_fit:
  "try_disambiguate_route (Some (map_of aisha_index)) aisha_bint (normalize_str aisha_canonical) =
     Some ([0x31, 0x30], Positive_fit)"
  by (simp add: try_disambiguate_route_def positive_ids_def aisha_index_def aisha_norm aisha_neq
      aisha_len aisha_prefix)

section \<open>Claims about normalization\<close>

text \<open>
  Claim C3 says that \<open>normalize\<close> is idempotent for every input, and in particular that a
  normalized form that still begins with the letter waw is left alone by a second
  application. The code strips one leading waw per call, so the string of two waws
  normalizes to one waw and then to the empty string: the claim as stated is false.
\<close>

theorem normalize_not_idempotent_counterexample:
  "normalize_str (normalize_str [0x648, 0x648]) \<noteq> normalize_str [0x648, 0x648]"
  by (simp add: normalize_eval)

text \<open>
  Claim C3, amended: \<open>normalize (normalize x) = normalize x\<close> holds exactly for the inputs
  \<open>x\<close> whose normalized form does not begin with the letter waw and has no opening
  parenthesis with a closing one after it. (Such a pair survives the first application
  only around a line feed, which the pattern of step 2 does not cross and step 6 turns into
  a space.)
\<close>

theorem normalize_idempotent:
  "normalize_str (normalize_str x) = normalize_str x \<longleftrightarrow>
     \<not> startswith (normalize_str x) [0x648] \<and> \<not> paren_pair (normalize_str x)"
proof
  assume e: "normalize_str (normalize_str x) = normalize_str x"
  show "\<not> startswith (normalize_str x) [0x648] \<and> \<not> paren_pair (normalize_str x)"
  proof (rule ccontr)
    assume "\<not> (\<not> startswith (normalize_str x) [0x648] \<and> \<not> paren_pair (normalize_str x))"
    then have "startswith (normalize_str x) [0x648] \<or> paren_pair (normalize_str x)" by simp
    moreover have "\<forall>c \<in> set (normalize_str x). kept c \<and> \<not> folded c"
      using normalize_kept normalize_no_folded by blast
    moreover have "0x0A \<notin> set (normalize_str x)"
      by (rule collapsed_no_newline) (rule normalize_shape)
    ultimately have "length (normalize_str (normalize_str x)) < length (normalize_str x)"
      by (intro normalize_changes)
    with e show False by simp
  qed
next
  assume a: "\<not> startswith (normalize_str x) [0x648] \<and> \<not> paren_pair (normalize_str x)"
  show "normalize_str (normalize_str x) = normalize_str x"
  proof (rule normalize_fixed)
    show "\<forall>c \<in> set (normalize_str x). kept c \<and> \<not> folded c"
      using normalize_kept normalize_no_folded by blast
    show "collapsed (normalize_str x)" by (rule normalize_shape)
    show "normalize_str x = [] \<or>
        (\<not> isspace (hd (normalize_str x)) \<and> \<not> isspace (last (normalize_str x)))"
      by (rule normalize_shape)
    show "\<not> startswith (normalize_str x) [0x648]" using a by simp
    show "\<not> paren_pair (normalize_str x)" using a by simp
  qed
qed

text \<open>
  An input on which the second application changes nothing, and one on which it does: a
  parenthesis pair around a line feed is not removed the first time and is removed the
  second.
\<close>

theorem normalize_idempotent_witness:
  "normalize_str [0x623, 0x64E, 0x628, 0x20, 0x20, 0x647, 0x2E] = [0x627, 0x628, 0x20, 0x647] \<and>
   \<not> startswith [0x627, 0x628, 0x20, 0x647] [0x648] \<and>
   \<not> paren_pair [0x627, 0x628, 0x20, 0x647] \<and>
   normalize_str (normalize_str [0x623, 0x64E, 0x628, 0x20, 0x20, 0x647, 0x2E]) =
     normalize_str [0x623, 0x64E, 0x628, 0x20, 0x20, 0x647, 0x2E] \<and>
   normalize_str [0x28, 0x0A, 0x29] = [0x28, 0x20, 0x29] \<and>
   paren_pair [0x28, 0x20, 0x29] \<and>
   normalize_str (normalize_str [0x28, 0x0A, 0x29]) \<noteq> normalize_str [0x28, 0x0A, 0x29]"
proof -
  have 1: "normalize_str [0x623, 0x64E, 0x628, 0x20, 0x20, 0x647, 0x2E] = [0x627, 0x628, 0x20, 0x647]"
    by (simp add: normalize_eval)
  have 2: "\<not> startswith [0x627, 0x628, 0x20, 0x647] [0x648]"
    and 3: "\<not> paren_pair [0x627, 0x628, 0x20, 0x647]"
    by (simp_all add: startswith_def)
  have 4: "normalize_str [0x28, 0x0A, 0x29] = [0x28, 0x20, 0x29]"
    by (simp add: normalize_eval)
  have 5: "paren_pair [0x28, 0x20, 0x29]" by simp
  from normalize_idempotent [of "[0x623, 0x64E, 0x628, 0x20, 0x20, 0x647, 0x2E]"] 2 3
  have 6: "normalize_str (normalize_str [0x623, 0x64E, 0x628, 0x20, 0x20, 0x647, 0x2E]) =
     normalize_str [0x623, 0x64E, 0x628, 0x20, 0x20, 0x647, 0x2E]"
    unfolding 1 by blast
  from normalize_idempotent [of "[0x28, 0x0A, 0x29]"] 5
  have 7: "normalize_str (normalize_str [0x28, 0x0A, 0x29]) \<noteq> normalize_str [0x28, 0x0A, 0x29]"
    unfolding 4 by blast
  from 1 2 3 4 5 6 7 show ?thesis by blast
qed




section \<open>Claims about the registry builders\<close>

text \<open>
  Claim C1 says that a form shared by two identities is in the collision set and is not a
  key of the lookup table, for every builder, \<open>build_lookup\<close> included. \<open>build_lookup\<close>
  enters a form in \<open>lookup\<close> at its first claim and never removes it, so there the form is
  in the collision set and is still a key: the claim as stated is false.
\<close>

theorem build_lookup_keeps_collided_key_counterexample:
  "(zayd, [0x31]) \<in> set (source_claims clash_names) \<and>
   (zayd, [0x32]) \<in> set (source_claims clash_names) \<and>
   build_lookup clash_names = ([(zayd, [0x31]), (umar, [0x32])], [zayd]) \<and>
   map_of (fst (build_lookup clash_names)) zayd = Some [0x31]"
proof -
  have b: "build_lookup clash_names = ([(zayd, [0x31]), (umar, [0x32])], [zayd])"
    by (simp add: build_lookup_def build_lookup_name_def clash_names_def normalize_eval names_eval
        Let_def)
  have c: "source_claims clash_names = [(zayd, [0x31]), (zayd, [0x32]), (umar, [0x32])]"
    by (simp add: source_claims_def clash_names_def normalize_eval names_eval Let_def)
  show ?thesis by (simp add: b c)
qed

text \<open>
  Claim C1, amended. An identity claims a form when the form is the non-empty normalized
  form of one of its names (for \<open>build_shamela_lookup\<close>: of the name of a narrator of a
  successful page that has that id). For two distinct identities that claim a form
  \<open>F\<close>: \<open>build_lookup\<close> returns \<open>F\<close> in the collision set and keeps \<open>F\<close> as a key of
  \<open>lookup\<close>, and \<open>enrich\<close>, which tests the collision set first, gives a narrator of that
  form no id; \<open>build_narrator_name_lookup\<close>, for a source with distinct keys (a JSON
  object), and \<open>build_shamela_lookup\<close> return \<open>F\<close> in the collision set and not as a key of
  the lookup table.
\<close>

theorem collisions_detected:
  "(i1 \<noteq> i2 \<and> (F, i1) \<in> set (source_claims nn) \<and> (F, i2) \<in> set (source_claims nn) \<longrightarrow>
      F \<in> set (snd (build_lookup nn)) \<and> map_of (fst (build_lookup nn)) F \<noteq> None \<and>
      (normalize_str (get_default (name n)) = F \<longrightarrow>
         narrator_id (enrich_narrator (fst (build_lookup nn)) (snd (build_lookup nn)) n) = None)) \<and>
   (distinct (map fst nn) \<and>
    i1 \<noteq> i2 \<and> (F, i1) \<in> set (source_claims nn) \<and> (F, i2) \<in> set (source_claims nn) \<longrightarrow>
      F \<in> set (fst (snd (build_narrator_name_lookup nn))) \<and>
      map_of (fst (build_narrator_name_lookup nn)) F = None) \<and>
   (i1 \<noteq> i2 \<and> (F, i1) \<in> set (shamela_claims pages) \<and> (F, i2) \<in> set (shamela_claims pages) \<longrightarrow>
      F \<in> set (snd (build_shamela_lookup pages)) \<and>
      map_of (fst (build_shamela_lookup pages)) F = None)"
proof (intro conjI impI)
  assume a: "i1 \<noteq> i2 \<and> (F, i1) \<in> set (source_claims nn) \<and> (F, i2) \<in> set (source_claims nn)"
  then have o: "i1 \<in> owners (source_claims nn) F" "i2 \<in> owners (source_claims nn) F"
    by (simp_all add: owners_def)
  note w = first_wins_build_lookup [of nn]
  from o have "map_of (fst (build_lookup nn)) F \<noteq> None"
    using first_winsD(1) [OF w, of F] by auto
  then show "map_of (fst (build_lookup nn)) F \<noteq> None" .
  then obtain i where i: "map_of (fst (build_lookup nn)) F = Some i" by auto
  from a have "i1 \<noteq> i \<or> i2 \<noteq> i" by auto
  with o i show c: "F \<in> set (snd (build_lookup nn))"
    using first_winsD(3) [OF w, of F] by auto
  show "narrator_id (enrich_narrator (fst (build_lookup nn)) (snd (build_lookup nn)) n) = None"
    if "normalize_str (get_default (name n)) = F"
    using that c by (simp add: enrich_narrator_def)
next
  assume a: "distinct (map fst nn) \<and>
    i1 \<noteq> i2 \<and> (F, i1) \<in> set (source_claims nn) \<and> (F, i2) \<in> set (source_claims nn)"
  let ?ps = "name_claims (id_to_norms nn)"
  from a have "set ?ps = set (source_claims nn)" by (simp add: name_claims_source)
  with a have "i1 \<in> owners ?ps F" "i2 \<in> owners ?ps F" by (simp_all add: owners_def)
  with a have c: "2 \<le> card (owners ?ps F)" by (blast intro: two_owners)
  have t: "tabulates ?ps (norm_to_ids (id_to_norms nn))"
    unfolding norm_to_ids_def by (rule tabulates_fold)
  from c show "F \<in> set (fst (snd (build_narrator_name_lookup nn)))"
    by (simp add: build_narrator_name_lookup_def Let_def collision_iff [OF t])
  have "map_of (fst (unambiguous (norm_to_ids (id_to_norms nn)))) F \<noteq> Some i" for i
    using two_owners_not_single [OF c] by (simp add: lookup_iff [OF t])
  then have "map_of (fst (unambiguous (norm_to_ids (id_to_norms nn)))) F = None"
    by (cases "map_of (fst (unambiguous (norm_to_ids (id_to_norms nn)))) F") blast+
  then show "map_of (fst (build_narrator_name_lookup nn)) F = None"
    by (simp add: build_narrator_name_lookup_def Let_def)
next
  assume a: "i1 \<noteq> i2 \<and> (F, i1) \<in> set (shamela_claims pages) \<and> (F, i2) \<in> set (shamela_claims pages)"
  let ?ps = "shamela_claims pages"
  from a have "i1 \<in> owners ?ps F" "i2 \<in> owners ?ps F" by (simp_all add: owners_def)
  with a have c: "2 \<le> card (owners ?ps F)" by (blast intro: two_owners)
  have t: "tabulates ?ps (foldl setdefault_add [] ?ps)" by (rule tabulates_fold)
  from c show "F \<in> set (snd (build_shamela_lookup pages))"
    by (simp add: build_shamela_lookup_def collision_iff [OF t])
  have "map_of (fst (unambiguous (foldl setdefault_add [] ?ps))) F \<noteq> Some i" for i
    using two_owners_not_single [OF c] by (simp add: lookup_iff [OF t])
  then have "map_of (fst (unambiguous (foldl setdefault_add [] ?ps))) F = None"
    by (cases "map_of (fst (unambiguous (foldl setdefault_add [] ?ps))) F") blast+
  then show "map_of (fst (build_shamela_lookup pages)) F = None"
    by (simp add: build_shamela_lookup_def)
qed

theorem collisions_detected_witness:
  "([0x31] :: ustring) \<noteq> [0x32] \<and>
   (zayd, [0x31]) \<in> set (source_claims clash_names) \<and>
   (zayd, [0x32]) \<in> set (source_claims clash_names) \<and>
   distinct (map fst clash_names) \<and>
   (zayd, [0x31]) \<in> set (shamela_claims clash_pages) \<and>
   (zayd, [0x32]) \<in> set (shamela_claims clash_pages) \<and>
   normalize_str (get_default (name (unresolved zayd))) = zayd \<and>
   zayd \<in> set (snd (build_lookup clash_names)) \<and>
   map_of (fst (build_lookup clash_names)) zayd \<noteq> None \<and>
   narrator_id (enrich_narrator (fst (build_lookup clash_names)) (snd (build_lookup clash_names))
     (unresolved zayd)) = None \<and>
   zayd \<in> set (fst (snd (build_narrator_name_lookup clash_names))) \<and>
   map_of (fst (build_narrator_name_lookup clash_names)) zayd = None \<and>
   zayd \<in> set (snd (build_shamela_lookup clash_pages)) \<and>
   map_of (fst (build_shamela_lookup clash_pages)) zayd = None"
proof -
  have 1: "([0x31] :: ustring) \<noteq> [0x32]" by simp
  have c: "source_claims clash_names = [(zayd, [0x31]), (zayd, [0x32]), (umar, [0x32])]"
    by (simp add: source_claims_def clash_names_def normalize_eval names_eval Let_def)
  have 2: "(zayd, [0x31]) \<in> set (source_claims clash_names)"
    and 3: "(zayd, [0x32]) \<in> set (source_claims clash_names)"
    by (simp_all add: c)
  have 4: "distinct (map fst clash_names)" by (simp add: clash_names_def)
  have s: "shamela_claims clash_pages = [(zayd, [0x31]), (zayd, [0x32])]"
    by (simp add: shamela_claims_def shamela_claim_def success_blocks_def clash_pages_def
        get_default_def normalize_eval names_eval Let_def)
  have 5: "(zayd, [0x31]) \<in> set (shamela_claims clash_pages)"
    and 6: "(zayd, [0x32]) \<in> set (shamela_claims clash_pages)"
    by (simp_all add: s)
  have 7: "normalize_str (get_default (name (unresolved zayd))) = zayd"
    by (simp add: unresolved_def get_default_def normalize_names)
  from collisions_detected [of "[0x31]" "[0x32]" zayd clash_names "unresolved zayd" clash_pages]
    1 2 3 4 5 6 7
  show ?thesis by blast
qed

text \<open>
  Claim C10: \<open>build_shamela_lookup\<close> and \<open>build_narrator_name_lookup\<close> partition the forms.
  A form is a key of the lookup table exactly when one identity claims it, and is then
  mapped to that identity; it is in the collision set exactly when two or more claim it;
  a claimed form is not empty and is in exactly one of the two; the key set and the
  collision set are disjoint. So the test \<open>not in collision\<close> of pass 1 and of \<open>_try\<close>
  changes nothing for these tables: both are the plain lookups. For
  \<open>build_narrator_name_lookup\<close> the claims are read off a source with distinct keys.
\<close>

theorem registries_partition:
  "(map_of (fst (build_shamela_lookup pages)) F \<noteq> None \<longleftrightarrow> card (owners (shamela_claims pages) F) = 1) \<and>
   (map_of (fst (build_shamela_lookup pages)) F = Some i \<longleftrightarrow> owners (shamela_claims pages) F = {i}) \<and>
   (F \<in> set (snd (build_shamela_lookup pages)) \<longleftrightarrow> 2 \<le> card (owners (shamela_claims pages) F)) \<and>
   ((F, i) \<in> set (shamela_claims pages) \<longrightarrow>
      F \<noteq> [] \<and>
      (map_of (fst (build_shamela_lookup pages)) F \<noteq> None) \<noteq> (F \<in> set (snd (build_shamela_lookup pages)))) \<and>
   dom (map_of (fst (build_shamela_lookup pages))) \<inter> set (snd (build_shamela_lookup pages)) = {} \<and>
   (distinct (map fst nn) \<longrightarrow>
      (map_of (fst (build_narrator_name_lookup nn)) F \<noteq> None \<longleftrightarrow>
         card (owners (source_claims nn) F) = 1) \<and>
      (map_of (fst (build_narrator_name_lookup nn)) F = Some i \<longleftrightarrow> owners (source_claims nn) F = {i}) \<and>
      (F \<in> set (fst (snd (build_narrator_name_lookup nn))) \<longleftrightarrow>
         2 \<le> card (owners (source_claims nn) F)) \<and>
      ((F, i) \<in> set (source_claims nn) \<longrightarrow>
         F \<noteq> [] \<and>
         (map_of (fst (build_narrator_name_lookup nn)) F \<noteq> None) \<noteq>
           (F \<in> set (fst (snd (build_narrator_name_lookup nn)))))) \<and>
   dom (map_of (fst (build_narrator_name_lookup nn))) \<inter>
     set (fst (snd (build_narrator_name_lookup nn))) = {} \<and>
   pass1 (map_of (fst (build_shamela_lookup pages))) (set (snd (build_shamela_lookup pages))) norm =
     (case map_of (fst (build_shamela_lookup pages)) norm of
        None \<Rightarrow> (None, None) | Some j \<Rightarrow> (Some j, Some ''shamela_cross_ref'')) \<and>
   lc_try (map_of (fst (build_shamela_lookup pages))) (map_of (fst (build_narrator_name_lookup nn)))
       (set (snd (build_shamela_lookup pages))) (set (fst (snd (build_narrator_name_lookup nn)))) norm =
     (case map_of (fst (build_shamela_lookup pages)) norm of
        None \<Rightarrow> map_of (fst (build_narrator_name_lookup nn)) norm | Some j \<Rightarrow> Some j)"
proof -
  note s = partition [OF shamela_tabulates [of pages], folded build_shamela_lookup_def]
  note n = partition [OF names_tabulates [of nn], folded names_parts]
  have sd: "F \<notin> set (snd (build_shamela_lookup pages))"
    if "map_of (fst (build_shamela_lookup pages)) F \<noteq> None" for F
    using that by (rule s(4))
  have nd: "F \<notin> set (fst (snd (build_narrator_name_lookup nn)))"
    if "map_of (fst (build_narrator_name_lookup nn)) F \<noteq> None" for F
    using that by (rule n(4))
  have 1: "map_of (fst (build_shamela_lookup pages)) F \<noteq> None \<longleftrightarrow>
      card (owners (shamela_claims pages) F) = 1"
    by (rule s(1))
  have 2: "map_of (fst (build_shamela_lookup pages)) F = Some i \<longleftrightarrow> owners (shamela_claims pages) F = {i}"
    unfolding build_shamela_lookup_def by (rule lookup_iff [OF shamela_tabulates])
  have 3: "F \<in> set (snd (build_shamela_lookup pages)) \<longleftrightarrow> 2 \<le> card (owners (shamela_claims pages) F)"
    by (rule s(2))
  have 4: "F \<noteq> [] \<and>
      (map_of (fst (build_shamela_lookup pages)) F \<noteq> None) \<noteq> (F \<in> set (snd (build_shamela_lookup pages)))"
    if "(F, i) \<in> set (shamela_claims pages)"
  proof
    from that show "F \<noteq> []" by (rule claims_nonempty)
    from that have "owners (shamela_claims pages) F \<noteq> {}" by (auto simp: owners_def)
    then show "(map_of (fst (build_shamela_lookup pages)) F \<noteq> None) \<noteq>
        (F \<in> set (snd (build_shamela_lookup pages)))"
      by (rule s(3))
  qed
  have 5: "dom (map_of (fst (build_shamela_lookup pages))) \<inter> set (snd (build_shamela_lookup pages)) = {}"
    using sd by (auto simp: dom_def)
  have 6: "(map_of (fst (build_narrator_name_lookup nn)) F \<noteq> None \<longleftrightarrow>
         card (owners (source_claims nn) F) = 1) \<and>
      (map_of (fst (build_narrator_name_lookup nn)) F = Some i \<longleftrightarrow> owners (source_claims nn) F = {i}) \<and>
      (F \<in> set (fst (snd (build_narrator_name_lookup nn))) \<longleftrightarrow>
         2 \<le> card (owners (source_claims nn) F)) \<and>
      ((F, i) \<in> set (source_claims nn) \<longrightarrow>
         F \<noteq> [] \<and>
         (map_of (fst (build_narrator_name_lookup nn)) F \<noteq> None) \<noteq>
           (F \<in> set (fst (snd (build_narrator_name_lookup nn)))))"
    if d: "distinct (map fst nn)"
  proof (intro conjI impI)
    note o = names_owners [OF d, of F]
    show "map_of (fst (build_narrator_name_lookup nn)) F \<noteq> None \<longleftrightarrow>
         card (owners (source_claims nn) F) = 1"
      using n(1) [of F] unfolding o .
    show "map_of (fst (build_narrator_name_lookup nn)) F = Some i \<longleftrightarrow> owners (source_claims nn) F = {i}"
      using lookup_iff [OF names_tabulates [of nn], of F i] unfolding o names_parts .
    show "F \<in> set (fst (snd (build_narrator_name_lookup nn))) \<longleftrightarrow>
         2 \<le> card (owners (source_claims nn) F)"
      using n(2) [of F] unfolding o .
    assume c: "(F, i) \<in> set (source_claims nn)"
    then show "F \<noteq> []" by (rule claims_nonempty)
    from c have "owners (source_claims nn) F \<noteq> {}" by (auto simp: owners_def)
    then have "owners (name_claims (id_to_norms nn)) F \<noteq> {}" unfolding o .
    then show "(map_of (fst (build_narrator_name_lookup nn)) F \<noteq> None) \<noteq>
           (F \<in> set (fst (snd (build_narrator_name_lookup nn))))"
      by (rule n(3))
  qed
  have 7: "dom (map_of (fst (build_narrator_name_lookup nn))) \<inter>
     set (fst (snd (build_narrator_name_lookup nn))) = {}"
    using nd by (auto simp: dom_def)
  have 8: "pass1 (map_of (fst (build_shamela_lookup pages))) (set (snd (build_shamela_lookup pages))) norm =
     (case map_of (fst (build_shamela_lookup pages)) norm of
        None \<Rightarrow> (None, None) | Some j \<Rightarrow> (Some j, Some ''shamela_cross_ref''))"
    using sd by (rule pass1_unguarded)
  have 9: "lc_try (map_of (fst (build_shamela_lookup pages))) (map_of (fst (build_narrator_name_lookup nn)))
       (set (snd (build_shamela_lookup pages))) (set (fst (snd (build_narrator_name_lookup nn)))) norm =
     (case map_of (fst (build_shamela_lookup pages)) norm of
        None \<Rightarrow> map_of (fst (build_narrator_name_lookup nn)) norm | Some j \<Rightarrow> Some j)"
    using sd nd by (rule lc_try_unguarded)
  from 1 2 3 4 5 6 7 8 9 show ?thesis by blast
qed

theorem registries_partition_witness:
  "(zayd, [0x39]) \<in> set (shamela_claims shamela_pages) \<and>
   map_of (fst (build_shamela_lookup shamela_pages)) zayd = Some [0x39] \<and>
   owners (shamela_claims shamela_pages) zayd = {[0x39]} \<and>
   zayd \<notin> set (snd (build_shamela_lookup shamela_pages)) \<and>
   distinct (map fst aisha_names) \<and>
   (aisha_bint, [0x31, 0x30]) \<in> set (source_claims aisha_names) \<and>
   aisha_bint \<in> set (fst (snd (build_narrator_name_lookup aisha_names))) \<and>
   2 \<le> card (owners (source_claims aisha_names) aisha_bint) \<and>
   map_of (fst (build_narrator_name_lookup aisha_names)) aisha_bint = None"
proof -
  have s: "shamela_claims shamela_pages = [(zayd, [0x39]), (umar, [0x31, 0x30])]"
    by (simp add: shamela_claims_def shamela_claim_def success_blocks_def shamela_pages_def
        get_default_def normalize_eval names_eval Let_def)
  have 1: "(zayd, [0x39]) \<in> set (shamela_claims shamela_pages)" by (simp add: s)
  have 2: "map_of (fst (build_shamela_lookup shamela_pages)) zayd = Some [0x39]"
    by (simp add: build_shamela_lookup_def s setdefault_add_def unambiguous_def names_eval)
  have 3: "distinct (map fst aisha_names)" by (simp add: aisha_names_def)
  have 4: "(aisha_bint, [0x31, 0x30]) \<in> set (source_claims aisha_names)"
    by (simp add: source_claims_def aisha_names_def aisha_norm aisha_neq)
  have 5: "aisha_bint \<in> set (fst (snd (build_narrator_name_lookup aisha_names)))"
    by (simp add: aisha_built)
  from registries_partition [of shamela_pages zayd "[0x39]" aisha_names] 1 2
  have a: "owners (shamela_claims shamela_pages) zayd = {[0x39]} \<and>
      zayd \<notin> set (snd (build_shamela_lookup shamela_pages))"
    by blast
  from registries_partition [of shamela_pages aisha_bint "[0x31, 0x30]" aisha_names] 3 4 5
  have b: "2 \<le> card (owners (source_claims aisha_names) aisha_bint) \<and>
      map_of (fst (build_narrator_name_lookup aisha_names)) aisha_bint = None"
    by blast
  from 1 2 3 4 5 a b show ?thesis by blast
qed

section \<open>Claims about the resolution pipeline\<close>

text \<open>
  Claim C9: after \<open>resolve\<close> (passes 0 to 3) and then \<open>resolve_pass4_matn\<close> (pass 4), every
  narrator has a \<open>narrator_id\<close> exactly when it has a \<open>narrator_id_resolution\<close>. The theorem
  holds for every input, so also for the inputs of the claim, whose ids are non-empty or
  null. Its first half says that \<open>resolve\<close> does return when every narrator has a name (the
  only exception of the loop is the \<open>KeyError\<close> of a predecessor without name); the second
  half is the invariant, for every run that returns.
\<close>

theorem pairing_invariant:
  "((\<forall>h \<in> set hs. \<forall>n \<in> set (all_narrators h). name n \<noteq> None) \<longrightarrow>
      (\<exists>hs1. resolve hs sl sc cm nm nl nc nci = Inr hs1)) \<and>
   (resolve hs sl sc cm nm nl nc nci = Inr hs1 \<longrightarrow>
      (\<forall>h \<in> set (resolve_pass4_matn hs1 idx). \<forall>n \<in> set (all_narrators h).
         (narrator_id n \<noteq> None) = (narrator_id_resolution n \<noteq> None)))"
proof
  show "(\<forall>h \<in> set hs. \<forall>n \<in> set (all_narrators h). name n \<noteq> None) \<longrightarrow>
     (\<exists>hs1. resolve hs sl sc cm nm nl nc nci = Inr hs1)"
    using resolve_total by blast
  show "resolve hs sl sc cm nm nl nc nci = Inr hs1 \<longrightarrow>
     (\<forall>h \<in> set (resolve_pass4_matn hs1 idx). \<forall>n \<in> set (all_narrators h).
        (narrator_id n \<noteq> None) = (narrator_id_resolution n \<noteq> None))"
  proof
    assume r: "resolve hs sl sc cm nm nl nc nci = Inr hs1"
    have "\<forall>n \<in> set (all_narrators h1). paired n" if "h1 \<in> set hs1" for h1
    proof -
      from map_err_Inr [OF r [unfolded resolve_def]] that
      obtain h where "resolve_hadith sl sc cm nm nl nc nci h = Inr h1"
        by (auto simp: list_all2_conv_all_nth in_set_conv_nth)
      then show ?thesis by (rule paired_resolve_hadith)
    qed
    then have "\<forall>h \<in> set (resolve_pass4_matn hs1 idx). \<forall>n \<in> set (all_narrators h). paired n"
      using paired_pass4 by (fastforce simp: resolve_pass4_matn_def)
    then show "\<forall>h \<in> set (resolve_pass4_matn hs1 idx). \<forall>n \<in> set (all_narrators h).
        (narrator_id n \<noteq> None) = (narrator_id_resolution n \<noteq> None)"
      by (simp add: paired_def)
  qed
qed

text \<open>
  A run of the two functions on one hadith: its chain has a narrator that comes with id 3,
  Zayd, whom pass 1 finds, and Umar, whom no pass finds.
\<close>

theorem pairing_invariant_witness:
  "map (\<lambda>n. name n \<noteq> None)
     (concat (map all_narrators
        [\<lparr>chains = [\<lparr>narrators = [(unresolved anas)\<lparr>narrator_id := Some [0x33]\<rparr>,
                                         unresolved zayd, unresolved umar]\<rparr>],
          matn_segments = []\<rparr>])) = [True, True, True] \<and>
   resolve [\<lparr>chains = [\<lparr>narrators = [(unresolved anas)\<lparr>narrator_id := Some [0x33]\<rparr>,
                                        unresolved zayd, unresolved umar]\<rparr>],
             matn_segments = []\<rparr>]
      [zayd \<mapsto> [0x35]] {} Map.empty Map.empty Map.empty {} None =
    Inr [\<lparr>chains = [\<lparr>narrators =
             [(unresolved anas)\<lparr>narrator_id := Some [0x33],
                                 narrator_id_resolution := Some ''exact_match''\<rparr>,
              (unresolved zayd)\<lparr>narrator_id := Some [0x35],
                                 narrator_id_resolution := Some ''shamela_cross_ref''\<rparr>,
              unresolved umar]\<rparr>],
          matn_segments = []\<rparr>] \<and>
   map (\<lambda>n. (narrator_id n \<noteq> None, narrator_id_resolution n \<noteq> None))
     (concat (map all_narrators (resolve_pass4_matn
        [\<lparr>chains = [\<lparr>narrators =
             [(unresolved anas)\<lparr>narrator_id := Some [0x33],
                                 narrator_id_resolution := Some ''exact_match''\<rparr>,
              (unresolved zayd)\<lparr>narrator_id := Some [0x35],
                                 narrator_id_resolution := Some ''shamela_cross_ref''\<rparr>,
              unresolved umar]\<rparr>],
          matn_segments = []\<rparr>] Map.empty))) =
     [(True, True), (True, True), (False, False)]"
proof -
  let ?hs = "[\<lparr>chains = [\<lparr>narrators = [(unresolved anas)\<lparr>narrator_id := Some [0x33]\<rparr>,
                                        unresolved zayd, unresolved umar]\<rparr>],
             matn_segments = []\<rparr>]"
  let ?hs1 = "[\<lparr>chains = [\<lparr>narrators =
             [(unresolved anas)\<lparr>narrator_id := Some [0x33],
                                 narrator_id_resolution := Some ''exact_match''\<rparr>,
              (unresolved zayd)\<lparr>narrator_id := Some [0x35],
                                 narrator_id_resolution := Some ''shamela_cross_ref''\<rparr>,
              unresolved umar]\<rparr>],
          matn_segments = []\<rparr>]"
  have r: "resolve ?hs [zayd \<mapsto> [0x35]] {} Map.empty Map.empty Map.empty {} None = Inr ?hs1"
    by (simp add: resolve_eval normalize_eval names_eval unresolved_def)
  have p: "resolve_pass4_matn ?hs1 Map.empty = ?hs1"
    by (simp add: pass4_eval unresolved_def)
  from pairing_invariant [of ?hs "[zayd \<mapsto> [0x35]]" "{}" Map.empty Map.empty Map.empty "{}"
      None ?hs1 Map.empty] r
  have "\<forall>h \<in> set (resolve_pass4_matn ?hs1 Map.empty). \<forall>n \<in> set (all_narrators h).
          (narrator_id n \<noteq> None) = (narrator_id_resolution n \<noteq> None)"
    by blast
  then have "\<forall>n \<in> set (concat (map all_narrators (resolve_pass4_matn ?hs1 Map.empty))).
          (narrator_id n \<noteq> None) = (narrator_id_resolution n \<noteq> None)"
    by simp
  then have "map (\<lambda>n. (narrator_id n \<noteq> None, narrator_id_resolution n \<noteq> None))
       (concat (map all_narrators (resolve_pass4_matn ?hs1 Map.empty))) =
     map (\<lambda>n. (narrator_id n \<noteq> None, narrator_id n \<noteq> None))
       (concat (map all_narrators (resolve_pass4_matn ?hs1 Map.empty)))"
    by (simp only: map_eq_conv) simp
  also have "\<dots> = [(True, True), (True, True), (False, False)]"
    by (simp only: p) (simp add: all_narrators_def unresolved_def)
  finally show ?thesis using r by (simp add: all_narrators_def unresolved_def)
qed

text \<open>
  Claim C4: pass 4 is conservative. When the first matn segment of a hadith matches no
  entry of the index or more than one, or matches one entry whose number of extra ids
  differs from the number of narrators without id, \<open>resolve_pass4_matn\<close> leaves the hadith
  as it is; and when the hadith is one that passes 0 to 3 returned, each of its narrators
  without id still has neither id nor tag.
\<close>

theorem pass4_conservative:
  assumes "matn_segments h = seg # segs"
    and "length (shamela_matches idx seg) \<noteq> 1 \<or>
         (\<exists>m. shamela_matches idx seg = [m] \<and> card (extra_ids m h) \<noteq> length (null_slots h))"
  shows "resolve_pass4_hadith idx h = h \<and>
         (resolve_hadith sl sc cm nm nl nc nci h0 = Inr h \<longrightarrow>
            (\<forall>n \<in> set (null_slots (resolve_pass4_hadith idx h)).
               narrator_id n = None \<and> narrator_id_resolution n = None))"
proof -
  have same: "resolve_pass4_hadith idx h = h"
    using assms by (auto simp: resolve_pass4_hadith_def split: list.splits)
  have "\<forall>n \<in> set (null_slots h). narrator_id n = None \<and> narrator_id_resolution n = None"
    if "resolve_hadith sl sc cm nm nl nc nci h0 = Inr h"
    using paired_resolve_hadith [OF that] by (auto simp: null_slots_def paired_def)
  with same show ?thesis by simp
qed

text \<open>
  The matn matches one entry, which has two extra ids, and the hadith has one narrator
  without id: nothing is assigned.
\<close>

theorem pass4_conservative_witness:
  "shamela_matches [matn_key \<mapsto> [shamela_entry]] matn_text = [shamela_entry] \<and>
   card (extra_ids shamela_entry
     \<lparr>chains = [\<lparr>narrators = [unresolved zayd]\<rparr>], matn_segments = [matn_text]\<rparr>) = 2 \<and>
   length (null_slots
     \<lparr>chains = [\<lparr>narrators = [unresolved zayd]\<rparr>], matn_segments = [matn_text]\<rparr>) = 1 \<and>
   resolve_hadith Map.empty {} Map.empty Map.empty Map.empty {} None
     \<lparr>chains = [\<lparr>narrators = [unresolved zayd]\<rparr>], matn_segments = [matn_text]\<rparr> =
     Inr \<lparr>chains = [\<lparr>narrators = [unresolved zayd]\<rparr>], matn_segments = [matn_text]\<rparr> \<and>
   resolve_pass4_hadith [matn_key \<mapsto> [shamela_entry]]
     \<lparr>chains = [\<lparr>narrators = [unresolved zayd]\<rparr>], matn_segments = [matn_text]\<rparr> =
     \<lparr>chains = [\<lparr>narrators = [unresolved zayd]\<rparr>], matn_segments = [matn_text]\<rparr> \<and>
   map (\<lambda>n. (narrator_id n, narrator_id_resolution n))
     (null_slots (resolve_pass4_hadith [matn_key \<mapsto> [shamela_entry]]
        \<lparr>chains = [\<lparr>narrators = [unresolved zayd]\<rparr>], matn_segments = [matn_text]\<rparr>)) =
     [(None, None)]"
proof -
  let ?h = "\<lparr>chains = [\<lparr>narrators = [unresolved zayd]\<rparr>], matn_segments = [matn_text]\<rparr>"
  have m: "shamela_matches [matn_key \<mapsto> [shamela_entry]] matn_text = [shamela_entry]"
    by (simp add: shamela_matches_def matn_key)
  have c: "card (extra_ids shamela_entry ?h) = 2"
    by (simp add: pass4_eval shamela_entry_def unresolved_def)
  have l: "length (null_slots ?h) = 1"
    by (simp add: pass4_eval unresolved_def)
  have r: "resolve_hadith Map.empty {} Map.empty Map.empty Map.empty {} None ?h = Inr ?h"
    by (simp add: resolve_eval unresolved_def)
  have "matn_segments ?h = matn_text # []" by simp
  then have s: "matn_segments ?h = matn_text # []" .
  have "length (shamela_matches [matn_key \<mapsto> [shamela_entry]] matn_text) \<noteq> 1 \<or>
      (\<exists>m. shamela_matches [matn_key \<mapsto> [shamela_entry]] matn_text = [m] \<and>
           card (extra_ids m ?h) \<noteq> length (null_slots ?h))"
    using m c l by simp
  from pass4_conservative [OF s this, of Map.empty "{}" Map.empty Map.empty Map.empty "{}" None ?h] r
  have u: "resolve_pass4_hadith [matn_key \<mapsto> [shamela_entry]] ?h = ?h"
    and n: "\<forall>n \<in> set (null_slots (resolve_pass4_hadith [matn_key \<mapsto> [shamela_entry]] ?h)).
           narrator_id n = None \<and> narrator_id_resolution n = None"
    by blast+
  from n have "map (\<lambda>n. (narrator_id n, narrator_id_resolution n))
      (null_slots (resolve_pass4_hadith [matn_key \<mapsto> [shamela_entry]] ?h)) =
    map (\<lambda>n. (None, None)) (null_slots (resolve_pass4_hadith [matn_key \<mapsto> [shamela_entry]] ?h))"
    by (simp only: map_eq_conv) simp
  also have "\<dots> = [(None, None)]"
    by (simp only: u) (simp add: null_slots_def all_narrators_def unresolved_def)
  finally show ?thesis using m c l r u by simp
qed

text \<open>
  Claim C2 says that when pass 4 commits, the i-th narrator without id receives the
  identity at the i-th corresponding position of the chain of the secondary block. The
  docstring of \<open>resolve_pass4_matn\<close> says the same (``assign those IDs positionally (same
  chain order in both sources)''), but the code pairs the narrators with
  \<open>sorted(extra_ids)\<close>, the ids in the order of their characters, and \<open>extra_ids\<close> is a set
  that has lost the chain order. Here the secondary chain is Zayd with id 9, then Umar
  with id 10; pass 4 commits and gives Zayd the id 10 and Umar the id 9.
\<close>

theorem pass4_assigns_in_sorted_order:
  "map (\<lambda>n. (sn_name n, sn_id n)) (concat (map block_narrators (success_blocks shamela_pages))) =
     [(Some zayd, Some [0x39]), (Some umar, Some [0x31, 0x30])] \<and>
   build_shamela_matn_index shamela_pages = Inr [matn_key \<mapsto> [shamela_entry]] \<and>
   map (\<lambda>n. (name n, narrator_id n, narrator_id_resolution n))
     (concat (map all_narrators
        (resolve_pass4_matn [bukhari_hadith] [matn_key \<mapsto> [shamela_entry]]))) =
     [(Some zayd, Some [0x31, 0x30], Some ''matn_chain_match''),
      (Some umar, Some [0x39], Some ''matn_chain_match'')]"
proof -
  have 1: "build_shamela_matn_index shamela_pages = Inr [matn_key \<mapsto> [shamela_entry]]"
    by (simp add: build_shamela_matn_index_def shamela_pages_def block_text_def truthy_def
        matn_key index_append_def shamela_entry_def insert_commute)
  have 2: "map (\<lambda>n. (name n, narrator_id n, narrator_id_resolution n))
     (concat (map all_narrators
        (resolve_pass4_matn [bukhari_hadith] [matn_key \<mapsto> [shamela_entry]]))) =
     [(Some zayd, Some [0x31, 0x30], Some ''matn_chain_match''),
      (Some umar, Some [0x39], Some ''matn_chain_match'')]"
    by (simp add: pass4_eval bukhari_hadith_def unresolved_def matn_key shamela_entry_def sorted_ids)
  have 3: "map (\<lambda>n. (sn_name n, sn_id n)) (concat (map block_narrators (success_blocks shamela_pages))) =
     [(Some zayd, Some [0x39]), (Some umar, Some [0x31, 0x30])]"
    by (simp add: success_blocks_def shamela_pages_def)
  from 1 2 3 show ?thesis by simp
qed

text \<open>
  Claim C5 says that for the first narrator of a chain pass 2 looks up the key made of the
  name, a bar and the empty successor name, and resolves the narrator when the key is in
  the table. The code guards pass 2 with \<open>student_name\<close> being non-empty, so for the first
  narrator the table is not read: with the key in the table and a canonical name that
  resolves, the narrator stays as it was.
\<close>

theorem first_mention_not_resolved_counterexample:
  "[zayd @ [0x7C] \<mapsto> umar] (zayd @ [0x7C] @ []) = Some umar \<and>
   lookup_canonical umar Map.empty [umar \<mapsto> [0x37]] {} {} None = Some [0x37] \<and>
   resolve_narrator Map.empty {} [zayd @ [0x7C] \<mapsto> umar] Map.empty [umar \<mapsto> [0x37]] {} None
     None (unresolved zayd) = Inr (unresolved zayd)"
  by (simp add: resolve_eval normalize_names unresolved_def)

text \<open>
  Claim C5, amended: for the first narrator of a chain pass 2 is skipped. The result of
  the loop body is the same for every context-mapping table, and its tag is never
  \<open>context_mapping\<close>.
\<close>

theorem first_mention_skips_pass2:
  "resolve_narrator sl sc cm nm nl nc nci None n = resolve_narrator sl sc cm' nm nl nc nci None n \<and>
   (resolve_narrator sl sc cm nm nl nc nci None n = Inr n' \<longrightarrow>
      narrator_id_resolution n' \<noteq> Some ''context_mapping'')"
proof
  show "resolve_narrator sl sc cm nm nl nc nci None n = resolve_narrator sl sc cm' nm nl nc nci None n"
    using resolve_unmatched_first [of sl sc cm nm nl nc nci n cm']
    by (simp add: resolve_narrator_def student_name_of_def)
  show "resolve_narrator sl sc cm nm nl nc nci None n = Inr n' \<longrightarrow>
      narrator_id_resolution n' \<noteq> Some ''context_mapping''"
    using resolve_unmatched_first_tag [of sl sc cm nm nl nc nci n]
    by (auto simp: resolve_narrator_def student_name_of_def split: if_splits)
qed

text \<open>The first narrator is still resolved by pass 3 when the name-mapping table has it.\<close>

theorem first_mention_skips_pass2_witness:
  "resolve_narrator Map.empty {} [zayd @ [0x7C] \<mapsto> umar] [zayd \<mapsto> anas]
     [[0x627, 0x646, 0x633] \<mapsto> [0x37]] {} None None (unresolved zayd) =
   resolve_narrator Map.empty {} Map.empty [zayd \<mapsto> anas]
     [[0x627, 0x646, 0x633] \<mapsto> [0x37]] {} None None (unresolved zayd) \<and>
   resolve_narrator Map.empty {} [zayd @ [0x7C] \<mapsto> umar] [zayd \<mapsto> anas]
     [[0x627, 0x646, 0x633] \<mapsto> [0x37]] {} None None (unresolved zayd) =
   Inr ((unresolved zayd)\<lparr>narrator_id := Some [0x37],
                            narrator_id_resolution := Some ''name_mapping''\<rparr>) \<and>
   narrator_id_resolution ((unresolved zayd)\<lparr>narrator_id := Some [0x37],
      narrator_id_resolution := Some ''name_mapping''\<rparr>) \<noteq> Some ''context_mapping''"
  using first_mention_skips_pass2 [of Map.empty "{}" "[zayd @ [0x7C] \<mapsto> umar]" "[zayd \<mapsto> anas]"
      "[[0x627, 0x646, 0x633] \<mapsto> [0x37]]" "{}" None "unresolved zayd" Map.empty]
  by (simp add: resolve_eval normalize_names unresolved_def)

text \<open>
  Claim C6: the passes run in the order 0, 1, 2, 3, 4 and the first that resolves a
  narrator decides its tag. The theorem is about a run of \<open>resolve\<close> (passes 0 to 3) that
  returns \<open>hs1\<close> for the input \<open>hs\<close>, followed by \<open>resolve_pass4_matn\<close> (pass 4), and about
  every narrator of the input, given by its place: hadith \<open>hi\<close>, chain \<open>ci\<close>, position \<open>k\<close>.
  (By \<open>resolve_total\<close> the run returns whenever every narrator has a name.) Both functions
  keep every narrator at its place. In the order of the conjuncts after that: a narrator
  that comes with an id is tagged \<open>exact_match\<close> by \<open>resolve\<close>, nothing else of it changes,
  whatever the tables hold, and pass 4 returns it as it is; a hit of pass 1 makes \<open>resolve\<close>
  record the id of the secondary lookup and the tag \<open>shamela_cross_ref\<close>, whatever the tables
  of passes 2 and 3 hold (so pass 1 wins over pass 2), and pass 4 keeps both; with the name
  of the narrator before it in the chain as student name, a hit of pass 2 after a miss of
  pass 1 records \<open>context_mapping\<close>, whatever the table of pass 3 holds; a hit of pass 3
  after a miss of passes 1 and 2 records \<open>name_mapping\<close>; whatever passes 0 to 3 did, pass 4
  returns a narrator that has an id after them as it finds it; and a narrator that has no
  id after them and has one after pass 4 carries the tag \<open>matn_chain_match\<close>.
\<close>

theorem pass_precedence:
  assumes r: "resolve hs sl sc cm nm nl nc nci = Inr hs1" and i: "in_range hs hi ci k"
  shows
    "in_range hs1 hi ci k \<and> in_range (resolve_pass4_matn hs1 idx) hi ci k \<and>
     (narrator_id (mention hs hi ci k) \<noteq> None \<longrightarrow>
        mention hs1 hi ci k = (mention hs hi ci k)\<lparr>narrator_id_resolution := Some ''exact_match''\<rparr> \<and>
        mention (resolve_pass4_matn hs1 idx) hi ci k = mention hs1 hi ci k) \<and>
     (narrator_id (mention hs hi ci k) = None \<and>
      sl (normalize_str (get_default (name (mention hs hi ci k)))) = Some i \<and> i \<noteq> [] \<and>
      normalize_str (get_default (name (mention hs hi ci k))) \<notin> sc \<longrightarrow>
        mention hs1 hi ci k =
          (mention hs hi ci k)\<lparr>narrator_id := Some i,
             narrator_id_resolution := Some ''shamela_cross_ref'', narrator_id_ambiguous := None\<rparr> \<and>
        mention (resolve_pass4_matn hs1 idx) hi ci k = mention hs1 hi ci k) \<and>
     (narrator_id (mention hs hi ci k) = None \<and>
      student_name_of (predecessor hs hi ci k) = Inr student \<and>
      (sl (normalize_str (get_default (name (mention hs hi ci k)))) = None \<or>
       normalize_str (get_default (name (mention hs hi ci k))) \<in> sc) \<and>
      student \<noteq> [] \<and>
      cm (get_default (name (mention hs hi ci k)) @ [0x7C] @ student) = Some canonical \<and>
      lookup_canonical canonical sl nl sc nc nci = Some i \<and> i \<noteq> [] \<longrightarrow>
        mention hs1 hi ci k =
          (mention hs hi ci k)\<lparr>narrator_id := Some i,
             narrator_id_resolution := Some ''context_mapping'', narrator_id_ambiguous := None\<rparr> \<and>
        mention (resolve_pass4_matn hs1 idx) hi ci k = mention hs1 hi ci k) \<and>
     (narrator_id (mention hs hi ci k) = None \<and>
      student_name_of (predecessor hs hi ci k) = Inr student \<and>
      (sl (normalize_str (get_default (name (mention hs hi ci k)))) = None \<or>
       normalize_str (get_default (name (mention hs hi ci k))) \<in> sc) \<and>
      (student = [] \<or> cm (get_default (name (mention hs hi ci k)) @ [0x7C] @ student) = None \<or>
       (\<exists>c2. cm (get_default (name (mention hs hi ci k)) @ [0x7C] @ student) = Some c2 \<and>
             lookup_canonical c2 sl nl sc nc nci = None)) \<and>
      nm (get_default (name (mention hs hi ci k))) = Some canonical \<and>
      lookup_canonical canonical sl nl sc nc nci = Some i \<and> i \<noteq> [] \<longrightarrow>
        mention hs1 hi ci k =
          (mention hs hi ci k)\<lparr>narrator_id := Some i,
             narrator_id_resolution := Some ''name_mapping'', narrator_id_ambiguous := None\<rparr> \<and>
        mention (resolve_pass4_matn hs1 idx) hi ci k = mention hs1 hi ci k) \<and>
     (narrator_id (mention hs1 hi ci k) \<noteq> None \<longrightarrow>
        mention (resolve_pass4_matn hs1 idx) hi ci k = mention hs1 hi ci k) \<and>
     (narrator_id (mention hs1 hi ci k) = None \<and>
      narrator_id (mention (resolve_pass4_matn hs1 idx) hi ci k) \<noteq> None \<longrightarrow>
        narrator_id_resolution (mention (resolve_pass4_matn hs1 idx) hi ci k) =
          Some ''matn_chain_match'')"
proof -
  let ?n = "mention hs hi ci k"
  let ?n1 = "mention hs1 hi ci k"
  let ?n2 = "mention (resolve_pass4_matn hs1 idx) hi ci k"
  let ?prev = "predecessor hs hi ci k"
  note m = resolve_mention [OF r i]
  note p = pass4_mention [OF m(1), of idx]
  have keep: "?n2 = ?n1" if "narrator_id ?n1 \<noteq> None"
    using p(2) that by (rule pass4_step_resolved)
  have 0: "?n1 = ?n\<lparr>narrator_id_resolution := Some ''exact_match''\<rparr> \<and> ?n2 = ?n1"
    if "narrator_id ?n \<noteq> None"
  proof -
    from pass0 [OF that, of sl sc cm nm nl nc nci ?prev] m(2)
    have e: "?n1 = ?n\<lparr>narrator_id_resolution := Some ''exact_match''\<rparr>" by simp
    with that have "narrator_id ?n1 \<noteq> None" by simp
    with e keep show ?thesis by simp
  qed
  have 1: "?n1 = ?n\<lparr>narrator_id := Some i, narrator_id_resolution := Some ''shamela_cross_ref'',
               narrator_id_ambiguous := None\<rparr> \<and> ?n2 = ?n1"
    if a: "narrator_id ?n = None \<and> sl (normalize_str (get_default (name ?n))) = Some i \<and> i \<noteq> [] \<and>
        normalize_str (get_default (name ?n)) \<notin> sc"
  proof -
    from a m(2) obtain s where s: "student_name_of ?prev = Inr s"
      using student_known by blast
    from a s have "resolve_narrator sl sc cm nm nl nc nci ?prev ?n =
        Inr (?n\<lparr>narrator_id := Some i, narrator_id_resolution := Some ''shamela_cross_ref'',
               narrator_id_ambiguous := None\<rparr>)"
      by (intro pass1_wins) auto
    with m(2) have e: "?n1 = ?n\<lparr>narrator_id := Some i,
        narrator_id_resolution := Some ''shamela_cross_ref'', narrator_id_ambiguous := None\<rparr>"
      by simp
    then have "narrator_id ?n1 \<noteq> None" by simp
    with e keep show ?thesis by simp
  qed
  have 2: "?n1 = ?n\<lparr>narrator_id := Some i, narrator_id_resolution := Some ''context_mapping'',
               narrator_id_ambiguous := None\<rparr> \<and> ?n2 = ?n1"
    if a: "narrator_id ?n = None \<and> student_name_of ?prev = Inr student \<and>
      (sl (normalize_str (get_default (name ?n))) = None \<or>
       normalize_str (get_default (name ?n)) \<in> sc) \<and>
      student \<noteq> [] \<and> cm (get_default (name ?n) @ [0x7C] @ student) = Some canonical \<and>
      lookup_canonical canonical sl nl sc nc nci = Some i \<and> i \<noteq> []"
  proof -
    from a have "resolve_narrator sl sc cm nm nl nc nci ?prev ?n =
        Inr (?n\<lparr>narrator_id := Some i, narrator_id_resolution := Some ''context_mapping'',
               narrator_id_ambiguous := None\<rparr>)"
      by (intro pass2_wins [where student = student and canonical = canonical]) auto
    with m(2) have e: "?n1 = ?n\<lparr>narrator_id := Some i,
        narrator_id_resolution := Some ''context_mapping'', narrator_id_ambiguous := None\<rparr>"
      by simp
    then have "narrator_id ?n1 \<noteq> None" by simp
    with e keep show ?thesis by simp
  qed
  have 3: "?n1 = ?n\<lparr>narrator_id := Some i, narrator_id_resolution := Some ''name_mapping'',
               narrator_id_ambiguous := None\<rparr> \<and> ?n2 = ?n1"
    if a: "narrator_id ?n = None \<and> student_name_of ?prev = Inr student \<and>
      (sl (normalize_str (get_default (name ?n))) = None \<or>
       normalize_str (get_default (name ?n)) \<in> sc) \<and>
      (student = [] \<or> cm (get_default (name ?n) @ [0x7C] @ student) = None \<or>
       (\<exists>c2. cm (get_default (name ?n) @ [0x7C] @ student) = Some c2 \<and>
             lookup_canonical c2 sl nl sc nc nci = None)) \<and>
      nm (get_default (name ?n)) = Some canonical \<and>
      lookup_canonical canonical sl nl sc nc nci = Some i \<and> i \<noteq> []"
  proof -
    from a have "resolve_narrator sl sc cm nm nl nc nci ?prev ?n =
        Inr (?n\<lparr>narrator_id := Some i, narrator_id_resolution := Some ''name_mapping'',
               narrator_id_ambiguous := None\<rparr>)"
      by (intro pass3_wins [where student = student and canonical = canonical]) auto
    with m(2) have e: "?n1 = ?n\<lparr>narrator_id := Some i,
        narrator_id_resolution := Some ''name_mapping'', narrator_id_ambiguous := None\<rparr>"
      by simp
    then have "narrator_id ?n1 \<noteq> None" by simp
    with e keep show ?thesis by simp
  qed
  have 4: "narrator_id_resolution ?n2 = Some ''matn_chain_match''"
    if "narrator_id ?n1 = None \<and> narrator_id ?n2 \<noteq> None"
    using p(2) that by (blast intro: pass4_step_tag)
  from m(1) p(1) 0 1 2 3 keep 4 show ?thesis by blast
qed

text \<open>
  One hadith with one chain: Zayd, who comes with id 3, then Umar without id. Zayd is
  tagged \<open>exact_match\<close>. In the first run pass 1 finds Umar in the secondary lookup (id 5),
  and pass 2 would find him too, through the context key of Umar and his predecessor Zayd
  (id 7): the tag is that of pass 1. In the second run the secondary lookup is empty and
  pass 2 resolves him, though pass 3 would too; in the third the context table is empty as
  well and pass 3 does. Pass 4 changes none of them. In the last run passes 0 to 3 resolve
  nobody and pass 4 gives Zayd an id and its tag.
\<close>

theorem pass_precedence_witness:
  "resolve (zayd_umar ((unresolved zayd)\<lparr>narrator_id := Some [0x33]\<rparr>) (unresolved umar))
     [umar \<mapsto> [0x35]] {} [umar @ [0x7C] @ zayd \<mapsto> anas] Map.empty
     [[0x627, 0x646, 0x633] \<mapsto> [0x37]] {} None =
     Inr (zayd_umar (known zayd [0x33] ''exact_match'') (known umar [0x35] ''shamela_cross_ref'')) \<and>
   mention (resolve_pass4_matn
       (zayd_umar (known zayd [0x33] ''exact_match'') (known umar [0x35] ''shamela_cross_ref''))
       [matn_key \<mapsto> [shamela_entry]]) 0 0 0 = known zayd [0x33] ''exact_match'' \<and>
   mention (resolve_pass4_matn
       (zayd_umar (known zayd [0x33] ''exact_match'') (known umar [0x35] ''shamela_cross_ref''))
       [matn_key \<mapsto> [shamela_entry]]) 0 0 1 = known umar [0x35] ''shamela_cross_ref'' \<and>
   lookup_canonical anas Map.empty [[0x627, 0x646, 0x633] \<mapsto> [0x37]] {} {} None = Some [0x37] \<and>
   resolve (zayd_umar ((unresolved zayd)\<lparr>narrator_id := Some [0x33]\<rparr>) (unresolved umar))
     Map.empty {} [umar @ [0x7C] @ zayd \<mapsto> anas] [umar \<mapsto> anas]
     [[0x627, 0x646, 0x633] \<mapsto> [0x37]] {} None =
     Inr (zayd_umar (known zayd [0x33] ''exact_match'') (known umar [0x37] ''context_mapping'')) \<and>
   mention (resolve_pass4_matn
       (zayd_umar (known zayd [0x33] ''exact_match'') (known umar [0x37] ''context_mapping''))
       [matn_key \<mapsto> [shamela_entry]]) 0 0 1 = known umar [0x37] ''context_mapping'' \<and>
   resolve (zayd_umar ((unresolved zayd)\<lparr>narrator_id := Some [0x33]\<rparr>) (unresolved umar))
     Map.empty {} Map.empty [umar \<mapsto> anas] [[0x627, 0x646, 0x633] \<mapsto> [0x37]] {} None =
     Inr (zayd_umar (known zayd [0x33] ''exact_match'') (known umar [0x37] ''name_mapping'')) \<and>
   mention (resolve_pass4_matn
       (zayd_umar (known zayd [0x33] ''exact_match'') (known umar [0x37] ''name_mapping''))
       [matn_key \<mapsto> [shamela_entry]]) 0 0 1 = known umar [0x37] ''name_mapping'' \<and>
   resolve [bukhari_hadith] Map.empty {} Map.empty Map.empty Map.empty {} None =
     Inr [bukhari_hadith] \<and>
   narrator_id (mention (resolve_pass4_matn [bukhari_hadith] [matn_key \<mapsto> [shamela_entry]]) 0 0 0) =
     Some [0x31, 0x30] \<and>
   narrator_id_resolution
     (mention (resolve_pass4_matn [bukhari_hadith] [matn_key \<mapsto> [shamela_entry]]) 0 0 0) =
     Some ''matn_chain_match''"
proof -
  let ?sl = "[umar \<mapsto> [0x35]]"
  let ?cm = "[umar @ [0x7C] @ zayd \<mapsto> anas]"
  let ?nm = "[umar \<mapsto> anas]"
  let ?nl = "[[0x627, 0x646, 0x633] \<mapsto> [0x37]]"
  let ?hs = "zayd_umar ((unresolved zayd)\<lparr>narrator_id := Some [0x33]\<rparr>) (unresolved umar)"
  let ?z1 = "known zayd [0x33] ''exact_match''"
  let ?a = "zayd_umar ?z1 (known umar [0x35] ''shamela_cross_ref'')"
  let ?b = "zayd_umar ?z1 (known umar [0x37] ''context_mapping'')"
  let ?c = "zayd_umar ?z1 (known umar [0x37] ''name_mapping'')"
  let ?idx = "[matn_key \<mapsto> [shamela_entry]]"
  have e: "lookup_canonical anas Map.empty ?nl {} {} None = Some [0x37]"
    by (simp add: resolve_eval normalize_eval names_eval Let_def)
  have ra: "resolve ?hs ?sl {} ?cm Map.empty ?nl {} None = Inr ?a"
    by (simp add: resolve_eval normalize_eval names_eval unresolved_def known_def zayd_umar_def)
  have rb: "resolve ?hs Map.empty {} ?cm ?nm ?nl {} None = Inr ?b"
    by (simp add: resolve_eval normalize_eval names_eval unresolved_def known_def zayd_umar_def
        Let_def)
  have rc: "resolve ?hs Map.empty {} Map.empty ?nm ?nl {} None = Inr ?c"
    by (simp add: resolve_eval normalize_eval names_eval unresolved_def known_def zayd_umar_def
        Let_def)
  have rd: "resolve [bukhari_hadith] Map.empty {} Map.empty Map.empty Map.empty {} None =
      Inr [bukhari_hadith]"
    by (simp add: resolve_eval normalize_eval names_eval unresolved_def bukhari_hadith_def)
  have i: "in_range ?hs 0 0 0" "in_range ?hs 0 0 1" "in_range [bukhari_hadith] 0 0 0"
    by (simp_all add: in_range_def zayd_umar_def bukhari_hadith_def)
  have m: "mention ?hs 0 0 0 = (unresolved zayd)\<lparr>narrator_id := Some [0x33]\<rparr>"
    "mention ?hs 0 0 1 = unresolved umar"
    "mention ?a 0 0 0 = ?z1" "mention ?a 0 0 1 = known umar [0x35] ''shamela_cross_ref''"
    "mention ?b 0 0 1 = known umar [0x37] ''context_mapping''"
    "mention ?c 0 0 1 = known umar [0x37] ''name_mapping''"
    "mention [bukhari_hadith] 0 0 0 = unresolved zayd"
    by (simp_all add: mention_def zayd_umar_def bukhari_hadith_def)
  have p: "predecessor ?hs 0 0 1 = Some ((unresolved zayd)\<lparr>narrator_id := Some [0x33]\<rparr>)"
    by (simp add: predecessor_def mention_def zayd_umar_def)
  have g: "get_default (name (unresolved umar)) = umar"
    by (simp add: unresolved_def get_default_def)
  have z: "zayd \<noteq> []" by (simp add: zayd_def)
  have h0: "narrator_id (mention ?hs 0 0 0) \<noteq> None"
    by (simp add: m)
  from pass_precedence [where idx = ?idx, OF ra i(1)] h0
  have c0: "mention (resolve_pass4_matn ?a ?idx) 0 0 0 = mention ?a 0 0 0"
    by blast
  have h1: "narrator_id (mention ?hs 0 0 1) = None \<and>
      ?sl (normalize_str (get_default (name (mention ?hs 0 0 1)))) = Some [0x35] \<and>
      [0x35] \<noteq> ([] :: ustring) \<and>
      normalize_str (get_default (name (mention ?hs 0 0 1))) \<notin> {}"
    unfolding m g normalize_names by (simp add: unresolved_def)
  from pass_precedence [where idx = ?idx and i = "[0x35]", OF ra i(2)] h1
  have c1: "mention (resolve_pass4_matn ?a ?idx) 0 0 1 = mention ?a 0 0 1"
    by blast
  have h2: "narrator_id (mention ?hs 0 0 1) = None \<and>
      student_name_of (predecessor ?hs 0 0 1) = Inr zayd \<and>
      (Map.empty (normalize_str (get_default (name (mention ?hs 0 0 1)))) = None \<or>
       normalize_str (get_default (name (mention ?hs 0 0 1))) \<in> {}) \<and>
      zayd \<noteq> [] \<and>
      ?cm (get_default (name (mention ?hs 0 0 1)) @ [0x7C] @ zayd) = Some anas \<and>
      lookup_canonical anas Map.empty ?nl {} {} None = Some [0x37] \<and> [0x37] \<noteq> ([] :: ustring)"
    unfolding m p g normalize_names
    by (simp add: unresolved_def student_name_of_def get_default_def z e)
  from pass_precedence [where idx = ?idx and i = "[0x37]" and student = zayd and
      canonical = anas, OF rb i(2)] h2
  have c2: "mention (resolve_pass4_matn ?b ?idx) 0 0 1 = mention ?b 0 0 1"
    by blast
  have h3: "narrator_id (mention ?hs 0 0 1) = None \<and>
      student_name_of (predecessor ?hs 0 0 1) = Inr zayd \<and>
      (Map.empty (normalize_str (get_default (name (mention ?hs 0 0 1)))) = None \<or>
       normalize_str (get_default (name (mention ?hs 0 0 1))) \<in> {}) \<and>
      (zayd = [] \<or> Map.empty (get_default (name (mention ?hs 0 0 1)) @ [0x7C] @ zayd) = None \<or>
       (\<exists>c2. Map.empty (get_default (name (mention ?hs 0 0 1)) @ [0x7C] @ zayd) = Some c2 \<and>
             lookup_canonical c2 Map.empty ?nl {} {} None = None)) \<and>
      ?nm (get_default (name (mention ?hs 0 0 1))) = Some anas \<and>
      lookup_canonical anas Map.empty ?nl {} {} None = Some [0x37] \<and> [0x37] \<noteq> ([] :: ustring)"
    unfolding m p g normalize_names
    by (simp add: unresolved_def student_name_of_def get_default_def e)
  from pass_precedence [where idx = ?idx and i = "[0x37]" and student = zayd and
      canonical = anas, OF rc i(2)] h3
  have c3: "mention (resolve_pass4_matn ?c ?idx) 0 0 1 = mention ?c 0 0 1"
    by blast
  have d: "narrator_id (mention (resolve_pass4_matn [bukhari_hadith] ?idx) 0 0 0) =
      Some [0x31, 0x30]"
    by (simp add: mention_def pass4_eval bukhari_hadith_def unresolved_def matn_key shamela_entry_def
        sorted_ids)
  have h4: "narrator_id (mention [bukhari_hadith] 0 0 0) = None \<and>
      narrator_id (mention (resolve_pass4_matn [bukhari_hadith] ?idx) 0 0 0) \<noteq> None"
    unfolding d m by (simp add: unresolved_def)
  from pass_precedence [where idx = ?idx, OF rd i(3)] h4
  have c4: "narrator_id_resolution (mention (resolve_pass4_matn [bukhari_hadith] ?idx) 0 0 0) =
      Some ''matn_chain_match''"
    by blast
  from c0 c1 c2 c3 have
    "mention (resolve_pass4_matn ?a ?idx) 0 0 0 = ?z1"
    "mention (resolve_pass4_matn ?a ?idx) 0 0 1 = known umar [0x35] ''shamela_cross_ref''"
    "mention (resolve_pass4_matn ?b ?idx) 0 0 1 = known umar [0x37] ''context_mapping''"
    "mention (resolve_pass4_matn ?c ?idx) 0 0 1 = known umar [0x37] ''name_mapping''"
    by (simp_all only: m)
  with ra rb rc rd e d c4 show ?thesis by blast
qed

section \<open>Claims about the canonical-name lookup\<close>

text \<open>
  Claim C8 says that in scenario B the canonical name resolves to identity 10 and that the
  positive-fit strategy selects it. The identity is right, the strategy is not: the
  normalized canonical name is itself a form that only identity 10 owns, so it is a key of
  the lookup table and \<open>lookup_canonical\<close> returns at its first \<open>return\<close>, the full match,
  before any prefix is tried.
\<close>

theorem aisha_not_by_positive_fit_counterexample:
  "lookup_canonical_route aisha_canonical Map.empty (map_of aisha_lookup) {} {aisha_bint}
     (Some (map_of aisha_index)) \<noteq> Some ([0x31, 0x30], Positive_fit)"
  by (simp add: aisha_route)

text \<open>
  Claim C8, amended: with the tables that \<open>build_narrator_name_lookup\<close> makes of scenario B,
  \<open>lookup_canonical\<close> returns identity 10 for the canonical name, by the full match of the
  normalized name in the lookup table. The positive-fit strategy, asked about the collided
  prefix and this name, selects identity 10 as well, but the lookup does not get there.
\<close>

theorem aisha_resolved_by_full_match:
  "build_narrator_name_lookup aisha_names = (aisha_lookup, [aisha_bint], aisha_index) \<and>
   normalize_str aisha_canonical = aisha_bint_abi_bakr \<and>
   lookup_canonical aisha_canonical Map.empty (map_of aisha_lookup) {} {aisha_bint}
     (Some (map_of aisha_index)) = Some [0x31, 0x30] \<and>
   lookup_canonical_route aisha_canonical Map.empty (map_of aisha_lookup) {} {aisha_bint}
     (Some (map_of aisha_index)) = Some ([0x31, 0x30], Full_match) \<and>
   try_disambiguate_route (Some (map_of aisha_index)) aisha_bint (normalize_str aisha_canonical) =
     Some ([0x31, 0x30], Positive_fit)"
proof -
  have "lookup_canonical aisha_canonical Map.empty (map_of aisha_lookup) {} {aisha_bint}
     (Some (map_of aisha_index)) =
     map_option fst (lookup_canonical_route aisha_canonical Map.empty (map_of aisha_lookup) {}
       {aisha_bint} (Some (map_of aisha_index)))"
    by (simp only: lookup_canonical_route_erase)
  also have "\<dots> = Some [0x31, 0x30]"
    by (simp only: aisha_route) simp
  finally show ?thesis
    using aisha_built aisha_norm(4) aisha_route aisha_positive_fit by simp
qed

end
